theory Spec2Isabelle
  imports Main "HOL-Library.Sublist"
begin

section \<open>JavaScript values\<close>

text \<open>
  The adapters read backend output as JSON. A parsed document is a \<open>json\<close> value; a
  JavaScript value that may be \<open>undefined\<close> is a \<open>json option\<close> with \<open>None\<close> for
  \<open>undefined\<close>. Strings are lists of code units below 256 and numbers are the integers
  (the range in which \<open>String(n)\<close> is the decimal numeral). An object lists its own
  properties, each key once. Time stamps (\<open>ts: now()\<close>) are left out of every event.
\<close>

datatype json =
    JNull
  | JBool bool
  | JNum int
  | JStr string
  | JArr "json list"
  | JObj "(string \<times> json) list"

type_synonym jsval = "json option"

text \<open>Property access \<open>v?.k\<close>: only objects carry the properties read by the adapters.\<close>

fun getp :: "jsval \<Rightarrow> string \<Rightarrow> jsval" where
  "getp (Some (JObj kvs)) k = map_of kvs k"
| "getp _ k = None"

text \<open>\<open>a ?? b\<close>: the right operand when the left one is \<open>null\<close> or \<open>undefined\<close>.\<close>

fun coalesce :: "jsval \<Rightarrow> jsval \<Rightarrow> jsval" where
  "coalesce None b = b"
| "coalesce (Some JNull) b = b"
| "coalesce (Some v) b = Some v"

text \<open>Truthiness, as \<open>!!v\<close> and \<open>if (v)\<close> read it.\<close>

fun truthy :: "jsval \<Rightarrow> bool" where
  "truthy None = False"
| "truthy (Some JNull) = False"
| "truthy (Some (JBool b)) = b"
| "truthy (Some (JNum n)) = (n \<noteq> 0)"
| "truthy (Some (JStr s)) = (s \<noteq> [])"
| "truthy (Some (JArr xs)) = True"
| "truthy (Some (JObj kvs)) = True"

text \<open>A string held in an optional field is truthy when present and non-empty.\<close>

fun truthy_str :: "string option \<Rightarrow> bool" where
  "truthy_str None = False"
| "truthy_str (Some s) = (s \<noteq> [])"

definition digit_char :: "nat \<Rightarrow> char" where
  "digit_char n = ''0123456789'' ! (n mod 10)"

function dec_nat :: "nat \<Rightarrow> string" where
  "dec_nat n = (if n < 10 then [digit_char n] else dec_nat (n div 10) @ [digit_char n])"
  by pat_completeness auto
termination
  by (relation "measure (\<lambda>n. n)") auto

declare dec_nat.simps [simp del]

text \<open>\<open>String(n)\<close> for an integer.\<close>

definition String_num :: "int \<Rightarrow> string" where
  "String_num i = (if i < 0 then CHR ''-'' # dec_nat (nat (- i)) else dec_nat (nat i))"

text \<open>
  White space as \<open>\s\<close> and \<open>trim()\<close> see it, among the code units below 256: tab, line
  feed, vertical tab, form feed, carriage return, space and the no-break space.
\<close>

definition is_ws :: "char \<Rightarrow> bool" where
  "is_ws c = (c \<in> set [CHR 0x09, CHR 0x0A, CHR 0x0B, CHR 0x0C, CHR 0x0D, CHR 0x20, CHR 0xA0])"

definition trim :: "string \<Rightarrow> string" where
  "trim s = rev (dropWhile is_ws (rev (dropWhile is_ws s)))"

text \<open>Errors are values. A thrown value is an \<open>Error\<close> object (name, code, message) or not.\<close>

datatype thrown =
    JsError (ename: string) (ecode: "string option") (emessage: string)
  | NonError jsval

definition new_Error :: "string \<Rightarrow> thrown" where
  "new_Error m = JsError ''Error'' None m"

text \<open>
  \<open>JSON.parse\<close> belongs to the runtime, not to the repository: every operation that
  parses takes it as the parameter \<open>parse\<close>, with \<open>None\<close> for a \<open>SyntaxError\<close>.
\<close>

type_synonym json_parse = "string \<Rightarrow> json option"

section \<open>Structured output extraction\<close>

text \<open>
  \<open>extractJsonPayload\<close> is the same text in the gemini, codex and claude adapters.
  The regular expression \<open>/```json\s*([\s\S]+?)```/i\<close> is matched as the engine does:
  leftmost start, \<open>\s*\<close> greedy with backtracking, the group lazy and non-empty.
\<close>

definition lower_ascii :: "char \<Rightarrow> char" where
  "lower_ascii c =
     (case map_of (zip ''ABCDEFGHIJKLMNOPQRSTUVWXYZ'' ''abcdefghijklmnopqrstuvwxyz'') c of
        Some d \<Rightarrow> d | None \<Rightarrow> c)"

definition fence_open :: "string \<Rightarrow> bool" where
  "fence_open s = (map lower_ascii (take 7 s) = ''```json'')"

text \<open>The shortest non-empty body after which the closing fence stands.\<close>

fun find_close :: "string \<Rightarrow> string \<Rightarrow> string option" where
  "find_close acc [] = None"
| "find_close acc (c # cs) =
     (if prefix ''```'' (c # cs) then Some acc else find_close (acc @ [c]) cs)"

fun lazy_body :: "string \<Rightarrow> string option" where
  "lazy_body [] = None"
| "lazy_body (c # cs) = find_close [c] cs"

text \<open>\<open>\s*\<close> first takes \<open>k\<close> white-space characters and gives one back on each failure.\<close>

fun try_ws :: "nat \<Rightarrow> string \<Rightarrow> string option" where
  "try_ws 0 rest = lazy_body rest"
| "try_ws (Suc k) rest =
     (case lazy_body (drop (Suc k) rest) of
        Some g \<Rightarrow> Some g
      | None \<Rightarrow> try_ws k rest)"

fun fenced :: "string \<Rightarrow> string option" where
  "fenced [] = None"
| "fenced (c # cs) =
     (if fence_open (c # cs) then
        (let rest = drop 7 (c # cs) in
         case try_ws (length (takeWhile is_ws rest)) rest of
           Some g \<Rightarrow> Some g
         | None \<Rightarrow> fenced cs)
      else fenced cs)"

text \<open>\<open>indexOf\<close> and \<open>lastIndexOf\<close> of one character; \<open>None\<close> stands for -1.\<close>

fun indexOf :: "string \<Rightarrow> char \<Rightarrow> nat option" where
  "indexOf [] c = None"
| "indexOf (x # xs) c = (if x = c then Some 0 else map_option Suc (indexOf xs c))"

fun lastIndexOf :: "string \<Rightarrow> char \<Rightarrow> nat option" where
  "lastIndexOf [] c = None"
| "lastIndexOf (x # xs) c =
     (case lastIndexOf xs c of
        Some i \<Rightarrow> Some (Suc i)
      | None \<Rightarrow> if x = c then Some 0 else None)"

definition slice :: "string \<Rightarrow> nat \<Rightarrow> nat \<Rightarrow> string" where
  "slice s a b = take (b - a) (drop a s)"

text \<open>The outermost \<open>{...}\<close> span of a candidate, parsed.\<close>

definition parse_span :: "json_parse \<Rightarrow> string \<Rightarrow> json option" where
  "parse_span parse candidate =
     (case (indexOf candidate CHR ''{'', lastIndexOf candidate CHR ''}'') of
        (Some start, Some en) \<Rightarrow>
          if en < start then None else parse (slice candidate start (en + 1))
      | _ \<Rightarrow> None)"

definition extractJsonPayload :: "json_parse \<Rightarrow> string option \<Rightarrow> json option" where
  "extractJsonPayload parse text_opt =
     (case text_opt of
        None \<Rightarrow> None
      | Some t \<Rightarrow>
          if t = [] then None
          else parse_span parse (trim (case fenced t of Some g \<Rightarrow> g | None \<Rightarrow> t)))"

section \<open>Shared adapter types\<close>

datatype Provider = codex | claude | gemini

datatype etype =
    T_init | T_message | T_tool_use | T_tool_result | T_progress
  | T_permission | T_usage | T_error | T_cancelled | T_done

text \<open>
  A \<open>CoderStreamEvent\<close>: its \<open>type\<close> tag, its provider and the remaining properties
  in the order the source writes them (the time stamp apart).
\<close>

record CoderStreamEvent =
  etype :: etype
  provider :: Provider
  props :: "(string \<times> jsval) list"

text \<open>The start options the gemini and codex adapters read.\<close>

record StartOpts =
  model :: "string option"
  workingDirectory :: "string option"
  sandboxMode :: "string option"
  skipGitRepoCheck :: "bool option"
  codexExecutablePath :: "string option"
  resume :: "string option"
  geminiBinaryPath :: "string option"
  includeDirectories :: "string list option"
  yolo :: "bool option"

text \<open>\<open>{ ...defaults, ...opts }\<close>: a property of \<open>opts\<close> wins where it is present.\<close>

definition orElse :: "'a option \<Rightarrow> 'a option \<Rightarrow> 'a option" where
  "orElse a b = (case a of Some v \<Rightarrow> Some v | None \<Rightarrow> b)"

definition mergeStartOpts :: "StartOpts \<Rightarrow> StartOpts \<Rightarrow> StartOpts" where
  "mergeStartOpts defaults ov =
     \<lparr> model = orElse (model ov) (model defaults),
       workingDirectory = orElse (workingDirectory ov) (workingDirectory defaults),
       sandboxMode = orElse (sandboxMode ov) (sandboxMode defaults),
       skipGitRepoCheck = orElse (skipGitRepoCheck ov) (skipGitRepoCheck defaults),
       codexExecutablePath = orElse (codexExecutablePath ov) (codexExecutablePath defaults),
       resume = orElse (resume ov) (resume defaults),
       geminiBinaryPath = orElse (geminiBinaryPath ov) (geminiBinaryPath defaults),
       includeDirectories = orElse (includeDirectories ov) (includeDirectories defaults),
       yolo = orElse (yolo ov) (yolo defaults) \<rparr>"

text \<open>
  Run options: the output schema and whether the caller passed an external
  \<open>AbortSignal\<close>.
\<close>

record RunOpts =
  outputSchema :: "json option"
  hasSignal :: bool

record RunResult =
  threadId :: "string option"
  rtext :: jsval
  rjson :: jsval
  usage :: jsval
  raw :: jsval

definition createAbortError :: "string option \<Rightarrow> thrown" where
  "createAbortError reason =
     JsError ''AbortError'' (Some ''interrupted'')
       (case reason of Some r \<Rightarrow> r | None \<Rightarrow> ''Operation was interrupted'')"

definition reason_item :: "string option \<Rightarrow> jsval" where
  "reason_item reason = Some (JObj (case reason of Some r \<Rightarrow> [(''reason'', JStr r)] | None \<Rightarrow> []))"

section \<open>Gemini adapter: processes, threads and cancellation\<close>

definition SOFT_KILL_DELAY_MS :: nat where
  "SOFT_KILL_DELAY_MS = 250"

definition HARD_KILL_DELAY_MS :: nat where
  "HARD_KILL_DELAY_MS = 1500"

datatype signal = SIGTERM | SIGKILL

text \<open>
  A child process as Node shows it. \<open>running\<close>: the operating-system process has not
  exited. \<open>killed\<close> is Node's \<open>child.killed\<close>: a signal was sent with \<open>kill()\<close>; it says
  nothing about the process having ended. \<open>exitCode\<close> stays \<open>null\<close> until the process
  exits with a code. \<open>received\<close> logs every signal delivered, with the time in ms.
  \<open>stdinOpen\<close> is \<open>None\<close> when there is no stdin pipe.
\<close>

record ChildProcess =
  args :: "string list"
  running :: bool
  killed :: bool
  exitCode :: "int option"
  received :: "(nat \<times> signal) list"
  stdinOpen :: "bool option"
  streamsDestroyed :: bool

text \<open>
  \<open>child.kill(sig)\<close>: while the process is there the signal is delivered and \<open>killed\<close>
  is set; on a process that has exited nothing is sent.
\<close>

definition kill :: "nat \<Rightarrow> signal \<Rightarrow> ChildProcess \<Rightarrow> ChildProcess" where
  "kill now sg c =
     (if running c then c\<lparr>killed := True, received := received c @ [(now, sg)]\<rparr> else c)"

text \<open>\<open>child.stdin?.end()\<close>.\<close>

definition end_stdin :: "ChildProcess \<Rightarrow> ChildProcess" where
  "end_stdin c = (case stdinOpen c of None \<Rightarrow> c | Some b \<Rightarrow> c\<lparr>stdinOpen := Some False\<rparr>)"

text \<open>A timer set with \<open>setTimeout\<close>: its deadline, and whether it has yet to fire.\<close>

datatype timer = Timer (deadline: nat) (pending: bool)

record ActiveRun =
  child :: ChildProcess
  signalAborted :: bool
  externalLinked :: bool
  aborted :: bool
  abortReason :: "string option"
  softKillTimer :: "timer option"
  hardKillTimer :: "timer option"

type_synonym addr = nat

record GeminiThreadState =
  id_g :: "string option"
  resumeToken :: "string option"
  opts :: StartOpts
  currentRun :: "addr option"

record GeminiSessionEntry =
  entry_index :: nat
  entry_id :: "string option"

text \<open>
  The world of one gemini thread: its state, the \<open>id\<close> of its handle, the store of
  \<open>ActiveRun\<close> objects (\<open>allocated\<close> of them were created, one per spawned process), the
  clock in ms, and what \<open>listGeminiSessions\<close> would return now (the answer of an external
  \<open>gemini --list-sessions\<close> process, an input of the model).
\<close>

record gworld =
  state :: GeminiThreadState
  handle_id :: "string option"
  heap :: "addr \<Rightarrow> ActiveRun"
  allocated :: nat
  clock :: nat
  listing :: "GeminiSessionEntry list"

definition upd_run :: "addr \<Rightarrow> (ActiveRun \<Rightarrow> ActiveRun) \<Rightarrow> gworld \<Rightarrow> gworld" where
  "upd_run a f w = w\<lparr>heap := (heap w)(a := f (heap w a))\<rparr>"

subsection \<open>Session resolver\<close>

definition extractSessionId :: "jsval \<Rightarrow> string option" where
  "extractSessionId payload =
     (case coalesce (getp payload ''session_id'')
             (coalesce (getp payload ''sessionId'')
             (coalesce (getp (getp payload ''session'') ''id'')
             (coalesce (getp (getp payload ''session'') ''session_id'')
                       (getp (getp payload ''metadata'') ''session_id'')))) of
        Some (JStr s) \<Rightarrow> if s \<noteq> [] then Some s else None
      | _ \<Rightarrow> None)"

definition extractSessionIndex :: "jsval \<Rightarrow> string option" where
  "extractSessionIndex payload =
     (case coalesce (getp payload ''session_index'')
             (coalesce (getp payload ''sessionIndex'')
             (coalesce (getp payload ''index'')
             (coalesce (getp (getp payload ''session'') ''index'')
             (coalesce (getp (getp payload ''session'') ''session_index'')
                       (getp (getp payload ''metadata'') ''session_index''))))) of
        Some (JNum n) \<Rightarrow> Some (String_num n)
      | Some (JStr s) \<Rightarrow> if trim s \<noteq> [] then Some (trim s) else None
      | _ \<Rightarrow> None)"

definition captureGeminiSessionMetadata :: "jsval \<Rightarrow> gworld \<Rightarrow> gworld" where
  "captureGeminiSessionMetadata payload w =
     (case extractSessionId payload of
        Some sessionId \<Rightarrow>
          w\<lparr>state := (state w)\<lparr>id_g := Some sessionId, resumeToken := Some sessionId\<rparr>,
            handle_id := Some sessionId\<rparr>
      | None \<Rightarrow>
          if truthy_str (id_g (state w)) then w
          else (case extractSessionIndex payload of
                  Some resumeIndex \<Rightarrow> w\<lparr>state := (state w)\<lparr>resumeToken := Some resumeIndex\<rparr>\<rparr>
                | None \<Rightarrow> w))"

definition resolveResumeTarget :: "GeminiThreadState \<Rightarrow> string option" where
  "resolveResumeTarget st =
     (if truthy_str (resumeToken st) then resumeToken st
      else if truthy_str (id_g st) then id_g st
      else (case resume (opts st) of
              Some candidate \<Rightarrow> if candidate \<noteq> [] then Some candidate else None
            | None \<Rightarrow> None))"

definition updateSessionMetadataFromList :: "gworld \<Rightarrow> gworld" where
  "updateSessionMetadataFromList w =
     (if listing w = [] then w
      else
        let latest = last (listing w) in
        if truthy_str (entry_id latest) then
          w\<lparr>state := (state w)\<lparr>id_g := entry_id latest, resumeToken := entry_id latest\<rparr>,
            handle_id := entry_id latest\<rparr>
        else if \<not> truthy_str (id_g (state w)) then
          w\<lparr>state := (state w)\<lparr>resumeToken := Some (String_num (int (entry_index latest)))\<rparr>\<rparr>
        else w)"

subsection \<open>Threads\<close>

definition startThread :: "StartOpts \<Rightarrow> StartOpts \<Rightarrow> GeminiThreadState" where
  "startThread defaultOpts ov =
     (let options = mergeStartOpts defaultOpts ov in
      \<lparr> id_g = resume options, resumeToken = resume options, opts = options,
        currentRun = None \<rparr>)"

definition resumeThread :: "StartOpts \<Rightarrow> string \<Rightarrow> StartOpts \<Rightarrow> GeminiThreadState" where
  "resumeThread defaultOpts tid ov =
     (let options = (mergeStartOpts defaultOpts ov)\<lparr>resume := Some tid\<rparr> in
      \<lparr> id_g = Some tid, resumeToken = Some tid, opts = options,
        currentRun = None \<rparr>)"

text \<open>\<open>createThreadHandle\<close>: the handle copies the state's id; no run object exists yet.\<close>

definition blankRun :: ActiveRun where
  "blankRun =
     \<lparr> child = \<lparr> args = [], running = False, killed = False, exitCode = None,
                 received = [], stdinOpen = None, streamsDestroyed = False \<rparr>,
       signalAborted = False, externalLinked = False, aborted = False,
       abortReason = None, softKillTimer = None, hardKillTimer = None \<rparr>"

definition createThreadHandle ::
  "nat \<Rightarrow> GeminiSessionEntry list \<Rightarrow> GeminiThreadState \<Rightarrow> gworld" where
  "createThreadHandle now ls st =
     \<lparr> state = st, handle_id = id_g st, heap = (\<lambda>a. blankRun), allocated = 0,
       clock = now, listing = ls \<rparr>"

definition getThreadId :: "gworld \<Rightarrow> string option" where
  "getThreadId w = id_g (state w)"

subsection \<open>Spawning, aborting and cleaning up\<close>

datatype output_format = json_format | stream_json

definition format_str :: "output_format \<Rightarrow> string" where
  "format_str f = (case f of json_format \<Rightarrow> ''json'' | stream_json \<Rightarrow> ''stream-json'')"

fun join :: "string \<Rightarrow> string list \<Rightarrow> string" where
  "join sep [] = []"
| "join sep [x] = x"
| "join sep (x # y # ys) = x @ sep @ join sep (y # ys)"

definition buildGeminiArgs ::
  "StartOpts \<Rightarrow> string \<Rightarrow> output_format \<Rightarrow> string option \<Rightarrow> string list" where
  "buildGeminiArgs os prompt fmt resumeTarget =
     [''--output-format'', format_str fmt, ''--prompt'', prompt]
     @ (if truthy_str (model os) then [''--model'', the (model os)] else [])
     @ (case includeDirectories os of
          Some ds \<Rightarrow> if ds \<noteq> [] then [''--include-directories'', join '','' ds] else []
        | None \<Rightarrow> [])
     @ (if yolo os = Some True then [''--yolo''] else [])
     @ (if truthy_str resumeTarget then [''--resume'', the resumeTarget] else [])"

definition assertIdle :: "GeminiThreadState \<Rightarrow> thrown option" where
  "assertIdle st =
     (case currentRun st of
        Some a \<Rightarrow> Some (new_Error ''Gemini adapter only supports one in-flight run per thread.'')
      | None \<Rightarrow> None)"

text \<open>
  \<open>spawnGeminiProcess\<close>: the process is started with \<open>stdio: ['ignore', 'pipe', 'pipe']\<close>,
  so the child has no stdin pipe. The new \<open>ActiveRun\<close> is stored at the next free
  address, which the function returns, and becomes the thread's current run.
\<close>

definition spawnGeminiProcess ::
  "string \<Rightarrow> output_format \<Rightarrow> RunOpts \<Rightarrow> gworld \<Rightarrow> addr \<times> gworld" where
  "spawnGeminiProcess prompt fmt ro w =
     (let startOpts = opts (state w);
          resumeTarget = resolveResumeTarget (state w);
          active =
            \<lparr> child = \<lparr> args = buildGeminiArgs startOpts prompt fmt resumeTarget,
                        running = True, killed = False, exitCode = None, received = [],
                        stdinOpen = None, streamsDestroyed = False \<rparr>,
              signalAborted = False, externalLinked = hasSignal ro, aborted = False,
              abortReason = None, softKillTimer = None, hardKillTimer = None \<rparr>;
          a = allocated w
      in (a, w\<lparr>heap := (heap w)(a := active), allocated := Suc a,
               state := (state w)\<lparr>currentRun := Some a\<rparr>\<rparr>))"

definition abortChild :: "string option \<Rightarrow> gworld \<Rightarrow> gworld" where
  "abortChild reason w =
     (case currentRun (state w) of
        None \<Rightarrow> w
      | Some a \<Rightarrow>
          let active = heap w a in
          if aborted active then w
          else
            let a1 = active\<lparr>aborted := True,
                            abortReason := Some (case reason of Some r \<Rightarrow> r | None \<Rightarrow> ''Interrupted''),
                            child := end_stdin (child active)\<rparr>;
                a2 = (if softKillTimer a1 = None
                      then a1\<lparr>softKillTimer := Some (Timer (clock w + SOFT_KILL_DELAY_MS) True)\<rparr>
                      else a1);
                a3 = (if hardKillTimer a2 = None
                      then a2\<lparr>hardKillTimer := Some (Timer (clock w + HARD_KILL_DELAY_MS) True)\<rparr>
                      else a2)
            in w\<lparr>heap := (heap w)(a := a3)\<rparr>)"

text \<open>The handle's \<open>interrupt(reason)\<close>: \<open>abortChild(state, reason ?? 'Interrupted')\<close>.\<close>

definition interrupt :: "string option \<Rightarrow> gworld \<Rightarrow> gworld" where
  "interrupt reason w =
     abortChild (Some (case reason of Some r \<Rightarrow> r | None \<Rightarrow> ''Interrupted'')) w"

text \<open>
  The listener that \<open>linkSignal\<close> puts on the caller's signal (registered once, removed by
  \<open>stopExternal\<close>), run when that signal aborts the run stored at \<open>a\<close>.
\<close>

definition externalAbort :: "addr \<Rightarrow> string option \<Rightarrow> gworld \<Rightarrow> gworld" where
  "externalAbort a reason w =
     (if \<not> externalLinked (heap w a) then w
      else
        let w1 = upd_run a (\<lambda>r. r\<lparr>externalLinked := False\<rparr>) w in
        if signalAborted (heap w1 a) then w1
        else abortChild reason (upd_run a (\<lambda>r. r\<lparr>signalAborted := True\<rparr>) w1))"

definition clearKillTimers :: "ActiveRun \<Rightarrow> ActiveRun" where
  "clearKillTimers active = active\<lparr>softKillTimer := None, hardKillTimer := None\<rparr>"

text \<open>
  The timer callbacks of \<open>abortChild\<close>, run when the clock has reached the deadline of a
  timer that is still pending; the signal is logged at the deadline.
\<close>

definition softKillDue :: "nat \<Rightarrow> ActiveRun \<Rightarrow> ActiveRun" where
  "softKillDue now r =
     (case softKillTimer r of
        Some (Timer dl True) \<Rightarrow>
          if dl \<le> now then
            r\<lparr>softKillTimer := Some (Timer dl False),
              child := (if \<not> killed (child r) then kill dl SIGTERM (child r) else child r)\<rparr>
          else r
      | _ \<Rightarrow> r)"

definition hardKillDue :: "nat \<Rightarrow> ActiveRun \<Rightarrow> ActiveRun" where
  "hardKillDue now r =
     (case hardKillTimer r of
        Some (Timer dl True) \<Rightarrow>
          if dl \<le> now then
            r\<lparr>hardKillTimer := Some (Timer dl False),
              child := (if \<not> killed (child r) then kill dl SIGKILL (child r) else child r)\<rparr>
          else r
      | _ \<Rightarrow> r)"

definition fireSoftKill :: "addr \<Rightarrow> gworld \<Rightarrow> gworld" where
  "fireSoftKill a w = upd_run a (softKillDue (clock w)) w"

definition fireHardKill :: "addr \<Rightarrow> gworld \<Rightarrow> gworld" where
  "fireHardKill a w = upd_run a (hardKillDue (clock w)) w"

text \<open>\<open>d\<close> ms pass: the timers of the run at \<open>a\<close> that fall due fire, the soft one first.\<close>

definition elapse :: "addr \<Rightarrow> nat \<Rightarrow> gworld \<Rightarrow> gworld" where
  "elapse a d w = fireHardKill a (fireSoftKill a (w\<lparr>clock := clock w + d\<rparr>))"

text \<open>The operating-system process of the run at \<open>a\<close> exits (code \<open>None\<close>: by a signal).\<close>

definition processExits :: "addr \<Rightarrow> int option \<Rightarrow> gworld \<Rightarrow> gworld" where
  "processExits a code w =
     upd_run a (\<lambda>r. r\<lparr>child := (child r)\<lparr>running := False, exitCode := code\<rparr>\<rparr>) w"

text \<open>
  The \<open>cleanup\<close> closure returned by \<open>spawnGeminiProcess\<close> for the run at \<open>a\<close>. Removing
  the readline and child listeners is recorded by the caller's own state.
\<close>

definition cleanup :: "addr \<Rightarrow> gworld \<Rightarrow> gworld" where
  "cleanup a w =
     (let w1 = upd_run a (\<lambda>r. (clearKillTimers (r\<lparr>externalLinked := False\<rparr>))
                                 \<lparr>child := (child r)\<lparr>streamsDestroyed := True\<rparr>\<rparr>) w;
          w2 = (if currentRun (state w1) = Some a
                then w1\<lparr>state := (state w1)\<lparr>currentRun := None\<rparr>\<rparr> else w1)
      in upd_run a (\<lambda>r. if \<not> killed (child r) \<and> exitCode (child r) = None
                         then r\<lparr>child := kill (clock w2) SIGTERM (child r)\<rparr> else r) w2)"

subsection \<open>Non-streamed run\<close>

text \<open>
  The prompt handed to the process is the result of \<open>applyOutputSchemaPrompt\<close>, a string
  built from the caller's input; it is an input here. The runtime is Node.js, so
  \<open>ensureNodeRuntime\<close> passes.
\<close>

definition parseGeminiJson :: "json_parse \<Rightarrow> string \<Rightarrow> json" where
  "parseGeminiJson parse output =
     (case parse output of Some v \<Rightarrow> v | None \<Rightarrow> JObj [(''response'', JStr output)])"

definition typeError :: "string \<Rightarrow> thrown" where
  "typeError m = JsError ''TypeError'' None m"

text \<open>\<open>`${code}`\<close> for an exit code that may be \<open>null\<close>.\<close>

definition code_str :: "int option \<Rightarrow> string" where
  "code_str c = (case c of Some n \<Rightarrow> String_num n | None \<Rightarrow> ''null'')"

text \<open>
  \<open>opts?.outputSchema ? extractJsonPayload(text) : undefined\<close>, where \<open>text\<close> is whatever
  the payload holds: on a truthy value that is not a string \<open>text.match\<close> is not a
  function and the call throws.
\<close>

definition structuredOf :: "json_parse \<Rightarrow> RunOpts \<Rightarrow> jsval \<Rightarrow> thrown + jsval" where
  "structuredOf parse ro t =
     (if \<not> truthy (outputSchema ro) then Inr None
      else (case t of
              Some (JStr s) \<Rightarrow> Inr (extractJsonPayload parse (Some s))
            | _ \<Rightarrow> if truthy t then Inl (typeError ''text.match is not a function'')
                   else Inr None))"

text \<open>\<open>runInternal\<close> up to the \<open>await\<close>: the idle check, then the spawn.\<close>

definition runInternal_start :: "string \<Rightarrow> RunOpts \<Rightarrow> gworld \<Rightarrow> thrown + (addr \<times> gworld)" where
  "runInternal_start prompt ro w =
     (case assertIdle (state w) of
        Some e \<Rightarrow> Inl e
      | None \<Rightarrow> Inr (spawnGeminiProcess prompt json_format ro w))"

text \<open>
  What \<open>waitForChild\<close> settles with: the \<open>exit\<close> event with the output collected so far,
  or the child's \<open>error\<close> event.
\<close>

datatype child_outcome =
    Exited string string "int option"
  | Errored thrown

text \<open>
  \<open>runInternal\<close> from the \<open>await\<close> on, for the run at \<open>a\<close>; \<open>cleanup()\<close> runs in the
  \<open>finally\<close> block on every path.
\<close>

definition runInternal_body ::
  "json_parse \<Rightarrow> RunOpts \<Rightarrow> addr \<Rightarrow> child_outcome \<Rightarrow> gworld \<Rightarrow> (thrown + RunResult) \<times> gworld" where
  "runInternal_body parse ro a oc w =
     (case oc of
        Errored e \<Rightarrow> (Inl e, w)
      | Exited stdout stderr code \<Rightarrow>
          let w0 = processExits a code w; active = heap w0 a in
          if aborted active then (Inl (createAbortError (abortReason active)), w0)
          else if code \<noteq> Some 0 then
            (Inl (new_Error (''gemini exited with code '' @ code_str code @ '': '' @ stderr)), w0)
          else
            let parsed = parseGeminiJson parse stdout;
                w1 = captureGeminiSessionMetadata (Some parsed) w0;
                w2 = (if \<not> truthy_str (id_g (state w1)) \<or> \<not> truthy_str (resumeToken (state w1))
                      then updateSessionMetadataFromList w1 else w1)
            in if parsed = JNull then
                 (Inl (typeError ''Cannot read properties of null (reading response)''), w2)
               else
                 let t = coalesce (getp (Some parsed) ''response'')
                           (coalesce (getp (Some parsed) ''text'') (Some (JStr stdout)))
                 in (case structuredOf parse ro t of
                       Inl e \<Rightarrow> (Inl e, w2)
                     | Inr structured \<Rightarrow>
                         (Inr \<lparr> threadId = id_g (state w2), rtext = t,
                                rjson = coalesce structured (getp (Some parsed) ''json''),
                                usage = getp (Some parsed) ''stats'', raw = Some parsed \<rparr>,
                          w2)))"

definition runInternal_finish ::
  "json_parse \<Rightarrow> RunOpts \<Rightarrow> addr \<Rightarrow> child_outcome \<Rightarrow> gworld \<Rightarrow> (thrown + RunResult) \<times> gworld" where
  "runInternal_finish parse ro a oc w =
     (case runInternal_body parse ro a oc w of (res, w') \<Rightarrow> (res, cleanup a w'))"

subsection \<open>Event normalizer\<close>

definition mkEvent :: "etype \<Rightarrow> Provider \<Rightarrow> (string \<times> jsval) list \<Rightarrow> CoderStreamEvent" where
  "mkEvent t p ps = \<lparr> etype = t, provider = p, props = ps \<rparr>"

definition jstr :: "string \<Rightarrow> jsval" where
  "jstr s = Some (JStr s)"

definition jnull :: jsval where
  "jnull = Some JNull"

definition normalizeGeminiEvent :: "jsval \<Rightarrow> CoderStreamEvent list" where
  "normalizeGeminiEvent event =
     (let ev = coalesce event (Some (JObj []));
          ty = getp ev ''type'' in
      if ty = jstr ''init'' then
        [mkEvent T_init gemini
           [(''threadId'', getp ev ''session_id''), (''model'', getp ev ''model''),
            (''originalItem'', ev)]]
      else if ty = jstr ''message'' then
        [mkEvent T_message gemini
           [(''role'', coalesce (getp ev ''role'') (jstr ''assistant'')),
            (''text'', getp ev ''content''),
            (''delta'', Some (JBool (truthy (getp ev ''delta'')))),
            (''originalItem'', ev)]]
      else if ty = jstr ''tool_use'' then
        [mkEvent T_tool_use gemini
           [(''name'', coalesce (getp ev ''tool_name'') (coalesce (getp ev ''name'') (jstr ''tool''))),
            (''callId'', coalesce (getp ev ''tool_id'')
                           (coalesce (getp ev ''call_id'') (coalesce (getp ev ''id'') jnull))),
            (''args'', coalesce (getp ev ''parameters'')
                         (coalesce (getp ev ''args'') (coalesce (getp ev ''input'') jnull))),
            (''originalItem'', ev)]]
      else if ty = jstr ''tool_result'' then
        [mkEvent T_tool_result gemini
           [(''name'', coalesce (getp ev ''tool_name'') (coalesce (getp ev ''name'') (jstr ''tool''))),
            (''callId'', coalesce (getp ev ''tool_id'')
                           (coalesce (getp ev ''call_id'') (coalesce (getp ev ''id'') jnull))),
            (''result'', coalesce (getp ev ''output'')
                           (coalesce (getp ev ''result'') (coalesce (getp ev ''response'') jnull))),
            (''exitCode'', coalesce (getp ev ''exit_code'') (coalesce (getp ev ''status'') jnull)),
            (''error'', coalesce (getp ev ''error'') jnull),
            (''originalItem'', ev)]]
      else if ty = jstr ''error'' then
        [mkEvent T_error gemini
           [(''message'', coalesce (getp ev ''message'') (jstr ''gemini error'')),
            (''originalItem'', ev)]]
      else if ty = jstr ''result'' then
        (if truthy (getp ev ''stats'')
         then [mkEvent T_usage gemini [(''stats'', getp ev ''stats''), (''originalItem'', ev)]]
         else [])
        @ [mkEvent T_done gemini [(''originalItem'', ev)]]
      else
        [mkEvent T_progress gemini
           [(''label'', (case ty of Some (JStr t) \<Rightarrow> jstr t | _ \<Rightarrow> jstr ''gemini.event'')),
            (''originalItem'', ev)]])"

definition cancelledEvent :: "Provider \<Rightarrow> string \<Rightarrow> CoderStreamEvent" where
  "cancelledEvent p reason = mkEvent T_cancelled p [(''originalItem'', reason_item (Some reason))]"

definition interruptedErrorEvent :: "Provider \<Rightarrow> string option \<Rightarrow> CoderStreamEvent" where
  "interruptedErrorEvent p reason =
     mkEvent T_error p
       [(''code'', jstr ''interrupted''),
        (''message'', jstr (case reason of Some r \<Rightarrow> r | None \<Rightarrow> ''Operation was interrupted'')),
        (''originalItem'', reason_item reason)]"

subsection \<open>Streamed run\<close>

text \<open>
  \<open>runStreamedInternal\<close> wires listeners to a queue that an async generator drains.
  An entry of the queue is an event, an \<open>Error\<close> or the \<open>DONE\<close> symbol.
\<close>

datatype entry = Ev CoderStreamEvent | Failure thrown | DONE

datatype outcome = Completed | Threw thrown | Returned

text \<open>
  The generator: not yet started, suspended at its \<open>yield\<close>, awaiting \<open>next()\<close>, or over.
\<close>

datatype gen_state = SuspendedStart | SuspendedYield | Awaiting | Ended outcome

text \<open>
  The closure of one streamed run. \<open>rid\<close> is the address of its \<open>active\<close>. \<open>waiters\<close>
  counts the resolvers in the \<open>waiters\<close> array; an entry given to a resolver sits in
  \<open>inbox\<close> until the generator resumes with it in the next microtask. \<open>delivered\<close> lists
  the entries the generator has received from \<open>next()\<close>, in order. The four listener
  flags say which handlers are still registered.
\<close>

record gstream =
  world :: gworld
  rid :: addr
  finished :: bool
  queue :: "entry list"
  waiters :: nat
  inbox :: "entry list"
  lineListener :: bool
  closeListener :: bool
  exitListener :: bool
  errorListener :: bool
  gen :: gen_state
  delivered :: "entry list"

definition push :: "entry \<Rightarrow> gstream \<Rightarrow> gstream" where
  "push e s =
     (if waiters s > 0 then s\<lparr>waiters := waiters s - 1, inbox := inbox s @ [e]\<rparr>
      else s\<lparr>queue := queue s @ [e]\<rparr>)"

definition emit :: "entry list \<Rightarrow> gstream \<Rightarrow> gstream" where
  "emit es s = foldl (\<lambda>s e. push e s) s es"

definition activeOf :: "gstream \<Rightarrow> ActiveRun" where
  "activeOf s = heap (world s) (rid s)"

definition handleLine :: "json_parse \<Rightarrow> string \<Rightarrow> gstream \<Rightarrow> gstream" where
  "handleLine parse line s =
     (if finished s then s
      else (case parse line of
              None \<Rightarrow> s
            | Some event \<Rightarrow>
                emit (map Ev (normalizeGeminiEvent (Some event)))
                  (s\<lparr>world := captureGeminiSessionMetadata (Some event) (world s)\<rparr>)))"

definition cancelledPair :: "ActiveRun \<Rightarrow> entry list" where
  "cancelledPair active =
     (let reason = (case abortReason active of Some r \<Rightarrow> r | None \<Rightarrow> ''Interrupted'') in
      [Ev (cancelledEvent gemini reason), Ev (interruptedErrorEvent gemini (Some reason)), DONE])"

definition handleClose :: "gstream \<Rightarrow> gstream" where
  "handleClose s =
     (if finished s \<or> \<not> aborted (activeOf s) then s
      else emit (cancelledPair (activeOf s)) (s\<lparr>finished := True\<rparr>))"

definition onExit :: "int option \<Rightarrow> gstream \<Rightarrow> gstream" where
  "onExit code s =
     (if finished s then s
      else
        let s1 = s\<lparr>finished := True\<rparr> in
        if aborted (activeOf s1) then emit (cancelledPair (activeOf s1)) s1
        else if code \<noteq> Some 0 then
          emit [Failure (new_Error (''gemini exited with code '' @ code_str code)), DONE] s1
        else if \<not> truthy_str (id_g (state (world s1))) \<or> \<not> truthy_str (resumeToken (state (world s1)))
        then emit [DONE] (s1\<lparr>world := updateSessionMetadataFromList (world s1)\<rparr>)
        else emit [DONE] s1)"

definition onError :: "thrown \<Rightarrow> gstream \<Rightarrow> gstream" where
  "onError err s =
     (if finished s then s else emit [Failure err, DONE] (s\<lparr>finished := True\<rparr>))"

text \<open>The generator's \<open>finally\<close> block.\<close>

definition gen_finally :: "gstream \<Rightarrow> gstream" where
  "gen_finally s =
     (let s1 = s\<lparr>world := cleanup (rid s) (world s), lineListener := False,
                  closeListener := False, exitListener := False, errorListener := False\<rparr>
      in if \<not> finished s1 \<and> \<not> aborted (activeOf s1)
         then s1\<lparr>world := abortChild (Some ''Stream closed'') (world s1)\<rparr>
         else s1)"

text \<open>The loop body after \<open>await next()\<close> has produced \<open>e\<close>.\<close>

definition receive :: "entry \<Rightarrow> gstream \<Rightarrow> gstream" where
  "receive e s =
     (let s1 = s\<lparr>delivered := delivered s @ [e]\<rparr> in
      case e of
        DONE \<Rightarrow> (gen_finally s1)\<lparr>gen := Ended Completed\<rparr>
      | Failure x \<Rightarrow> (gen_finally s1)\<lparr>gen := Ended (Threw x)\<rparr>
      | Ev ev \<Rightarrow> s1\<lparr>gen := SuspendedYield\<rparr>)"

text \<open>Microtasks after a handler: a generator awaiting \<open>next()\<close> resumes with its entry.\<close>

definition settle :: "gstream \<Rightarrow> gstream" where
  "settle s =
     (case inbox s of
        [] \<Rightarrow> s
      | e # es \<Rightarrow> if gen s = Awaiting then receive e (s\<lparr>inbox := es\<rparr>) else s)"

text \<open>The consumer asks for the next event: the generator runs to \<open>next()\<close>.\<close>

definition pull :: "gstream \<Rightarrow> gstream" where
  "pull s =
     (if gen s = SuspendedStart \<or> gen s = SuspendedYield then
        (case queue s of
           e # q \<Rightarrow> receive e (s\<lparr>queue := q\<rparr>)
         | [] \<Rightarrow> if finished s then receive DONE s
                 else s\<lparr>waiters := waiters s + 1, gen := Awaiting\<rparr>)
      else s)"

text \<open>
  The consumer leaves the loop early. A generator suspended at a \<open>yield\<close> runs its
  \<open>finally\<close> block; one that never started just ends.
\<close>

definition consumerReturn :: "gstream \<Rightarrow> gstream" where
  "consumerReturn s =
     (if gen s = SuspendedYield then (gen_finally s)\<lparr>gen := Ended Returned\<rparr>
      else if gen s = SuspendedStart then s\<lparr>gen := Ended Returned\<rparr>
      else s)"

definition runStreamedInternal :: "string \<Rightarrow> RunOpts \<Rightarrow> gworld \<Rightarrow> thrown + gstream" where
  "runStreamedInternal prompt ro w =
     (case assertIdle (state w) of
        Some e \<Rightarrow> Inl e
      | None \<Rightarrow>
          (case spawnGeminiProcess prompt stream_json ro w of
             (a, w1) \<Rightarrow>
               Inr \<lparr> world = w1, rid = a, finished = False, queue = [], waiters = 0,
                     inbox = [], lineListener = True, closeListener = True,
                     exitListener = True, errorListener = True, gen = SuspendedStart,
                     delivered = [] \<rparr>))"

text \<open>
  What can happen to a streamed run: a line of output, the output stream closing, the
  process exiting, the child's \<open>error\<close> event, \<open>interrupt(reason)\<close> on the handle, the
  caller's signal aborting, time passing, and the consumer pulling or leaving.
\<close>

datatype gsignal =
    Line string
  | Close
  | Exit "int option"
  | ChildError thrown
  | Interrupt "string option"
  | ExternalAbort "string option"
  | Elapse nat
  | Pull
  | Return

definition gstep :: "json_parse \<Rightarrow> gsignal \<Rightarrow> gstream \<Rightarrow> gstream" where
  "gstep parse sg s =
     settle
       (case sg of
          Line l \<Rightarrow> if lineListener s then handleLine parse l s else s
        | Close \<Rightarrow> if closeListener s then handleClose (s\<lparr>closeListener := False\<rparr>) else s
        | Exit code \<Rightarrow>
            if running (child (activeOf s)) then
              (let s1 = s\<lparr>world := processExits (rid s) code (world s)\<rparr> in
               if exitListener s1 then onExit code (s1\<lparr>exitListener := False\<rparr>) else s1)
            else s
        | ChildError e \<Rightarrow> if errorListener s then onError e (s\<lparr>errorListener := False\<rparr>) else s
        | Interrupt r \<Rightarrow> s\<lparr>world := interrupt r (world s)\<rparr>
        | ExternalAbort r \<Rightarrow> s\<lparr>world := externalAbort (rid s) r (world s)\<rparr>
        | Elapse d \<Rightarrow> s\<lparr>world := elapse (rid s) d (world s)\<rparr>
        | Pull \<Rightarrow> pull s
        | Return \<Rightarrow> consumerReturn s)"

definition grun :: "json_parse \<Rightarrow> gsignal list \<Rightarrow> gstream \<Rightarrow> gstream" where
  "grun parse sigs s = foldl (\<lambda>s sg. gstep parse sg s) s sigs"

text \<open>Everything the handlers have pushed, in push order, and the events yielded so far.\<close>

definition trace :: "gstream \<Rightarrow> entry list" where
  "trace s = delivered s @ inbox s @ queue s"

fun events_of :: "entry list \<Rightarrow> CoderStreamEvent list" where
  "events_of [] = []"
| "events_of (Ev e # es) = e # events_of es"
| "events_of (x # es) = events_of es"

definition yielded :: "gstream \<Rightarrow> CoderStreamEvent list" where
  "yielded s = events_of (delivered s)"

subsection \<open>A whole non-streamed run\<close>

text \<open>
  While \<open>runInternal\<close> awaits the child, the handle may be interrupted, the caller's
  signal may abort and timers may fire; nothing else touches the world.
\<close>

definition wstep :: "addr \<Rightarrow> gsignal \<Rightarrow> gworld \<Rightarrow> gworld" where
  "wstep a sg w =
     (case sg of
        Interrupt r \<Rightarrow> interrupt r w
      | ExternalAbort r \<Rightarrow> externalAbort a r w
      | Elapse d \<Rightarrow> elapse a d w
      | _ \<Rightarrow> w)"

definition runInternal ::
  "json_parse \<Rightarrow> string \<Rightarrow> RunOpts \<Rightarrow> gsignal list \<Rightarrow> child_outcome \<Rightarrow> gworld
     \<Rightarrow> (thrown + RunResult) \<times> gworld" where
  "runInternal parse prompt ro sigs oc w =
     (case runInternal_start prompt ro w of
        Inl e \<Rightarrow> (Inl e, w)
      | Inr (a, w1) \<Rightarrow>
          runInternal_finish parse ro a oc (foldl (\<lambda>w sg. wstep a sg w) w1 sigs))"

text \<open>Signals that abort a run, and output that names a session.\<close>

fun is_abort :: "gsignal \<Rightarrow> bool" where
  "is_abort (Interrupt r) = True"
| "is_abort (ExternalAbort r) = True"
| "is_abort sg = False"



section \<open>More of JavaScript: \<open>String(v)\<close>, lower case, substrings\<close>

fun js_String :: "json \<Rightarrow> string" and js_join :: "string \<Rightarrow> json list \<Rightarrow> string" where
  "js_String JNull = ''null''"
| "js_String (JBool b) = (if b then ''true'' else ''false'')"
| "js_String (JNum n) = String_num n"
| "js_String (JStr s) = s"
| "js_String (JArr xs) = js_join '','' xs"
| "js_String (JObj kvs) = ''[object Object]''"
| "js_join sep [] = []"
| "js_join sep [x] = (if x = JNull then [] else js_String x)"
| "js_join sep (x # y # ys) = (if x = JNull then [] else js_String x) @ sep @ js_join sep (y # ys)"

text \<open>
  \<open>toLowerCase\<close> on code units below 256: the letters A to Z, and the capital letters
  from 0xC0 to 0xDE (0xD7, the multiplication sign, apart), each 32 below its small
  letter.
\<close>

definition latin1_upper :: string where
  "latin1_upper =
     ''ABCDEFGHIJKLMNOPQRSTUVWXYZ'' @
       [
        CHR 0xC0, CHR 0xC1, CHR 0xC2, CHR 0xC3, CHR 0xC4, CHR 0xC5, CHR 0xC6, CHR 0xC7,
        CHR 0xC8, CHR 0xC9, CHR 0xCA, CHR 0xCB, CHR 0xCC, CHR 0xCD, CHR 0xCE, CHR 0xCF,
        CHR 0xD0, CHR 0xD1, CHR 0xD2, CHR 0xD3, CHR 0xD4, CHR 0xD5, CHR 0xD6, CHR 0xD8,
        CHR 0xD9, CHR 0xDA, CHR 0xDB, CHR 0xDC, CHR 0xDD, CHR 0xDE]"

definition latin1_lower :: string where
  "latin1_lower =
     ''abcdefghijklmnopqrstuvwxyz'' @
       [
        CHR 0xE0, CHR 0xE1, CHR 0xE2, CHR 0xE3, CHR 0xE4, CHR 0xE5, CHR 0xE6, CHR 0xE7,
        CHR 0xE8, CHR 0xE9, CHR 0xEA, CHR 0xEB, CHR 0xEC, CHR 0xED, CHR 0xEE, CHR 0xEF,
        CHR 0xF0, CHR 0xF1, CHR 0xF2, CHR 0xF3, CHR 0xF4, CHR 0xF5, CHR 0xF6, CHR 0xF8,
        CHR 0xF9, CHR 0xFA, CHR 0xFB, CHR 0xFC, CHR 0xFD, CHR 0xFE]"

definition toLowerCase :: "string \<Rightarrow> string" where
  "toLowerCase s =
     map (\<lambda>c. case map_of (zip latin1_upper latin1_lower) c of Some d \<Rightarrow> d | None \<Rightarrow> c) s"

fun includes_str :: "string \<Rightarrow> string \<Rightarrow> bool" where
  "includes_str [] needle = (needle = [])"
| "includes_str (c # cs) needle = (prefix needle (c # cs) \<or> includes_str cs needle)"

definition startsWith :: "string \<Rightarrow> string \<Rightarrow> bool" where
  "startsWith s p = prefix p s"

definition endsWith :: "string \<Rightarrow> string \<Rightarrow> bool" where
  "endsWith s p = suffix p s"

section \<open>Codex adapter\<close>

record ActiveRun_c =
  signalAborted_c :: bool
  signalReason_c :: "string option"
  externalLinked_c :: bool
  aborted_c :: bool
  abortReason_c :: "string option"

record CodexThreadState =
  id_c :: "string option"
  options_c :: StartOpts
  codexExecutablePath_c :: "string option"
  currentRun_c :: "addr option"

text \<open>
  The world of one codex thread. \<open>sdkCalls\<close> counts the calls made into the Codex SDK
  (\<open>createThread\<close> with the \<open>runStreamed\<close> that follows it).
\<close>

record cworld =
  cstate :: CodexThreadState
  chandle_id :: "string option"
  cheap :: "addr \<Rightarrow> ActiveRun_c"
  callocated :: nat
  sdkCalls :: nat

definition extractThreadOptions :: "StartOpts \<Rightarrow> StartOpts" where
  "extractThreadOptions os =
     \<lparr> model = model os, workingDirectory = workingDirectory os, sandboxMode = sandboxMode os,
       skipGitRepoCheck = skipGitRepoCheck os, codexExecutablePath = None, resume = None,
       geminiBinaryPath = None, includeDirectories = None, yolo = None \<rparr>"

definition blankRun_c :: ActiveRun_c where
  "blankRun_c =
     \<lparr> signalAborted_c = False, signalReason_c = None, externalLinked_c = False,
       aborted_c = False, abortReason_c = None \<rparr>"

definition createThreadHandle_c :: "CodexThreadState \<Rightarrow> cworld" where
  "createThreadHandle_c st =
     \<lparr> cstate = st, chandle_id = id_c st, cheap = (\<lambda>a. blankRun_c), callocated = 0,
       sdkCalls = 0 \<rparr>"

definition startThread_c :: "StartOpts \<Rightarrow> StartOpts \<Rightarrow> cworld" where
  "startThread_c defaultOpts ov =
     (let merged = mergeStartOpts defaultOpts ov in
      createThreadHandle_c
        \<lparr> id_c = None, options_c = extractThreadOptions merged,
          codexExecutablePath_c = codexExecutablePath merged, currentRun_c = None \<rparr>)"

definition resumeThread_c :: "StartOpts \<Rightarrow> string \<Rightarrow> StartOpts \<Rightarrow> cworld" where
  "resumeThread_c defaultOpts tid ov =
     (let merged = mergeStartOpts defaultOpts ov in
      createThreadHandle_c
        \<lparr> id_c = Some tid, options_c = extractThreadOptions merged,
          codexExecutablePath_c = codexExecutablePath merged, currentRun_c = None \<rparr>)"

definition assertIdle_c :: "CodexThreadState \<Rightarrow> thrown option" where
  "assertIdle_c st =
     (case currentRun_c st of
        Some a \<Rightarrow> Some (new_Error ''Codex adapter only supports one in-flight run per thread.'')
      | None \<Rightarrow> None)"

definition abortCurrentRun :: "string option \<Rightarrow> cworld \<Rightarrow> cworld" where
  "abortCurrentRun reason w =
     (case currentRun_c (cstate w) of
        None \<Rightarrow> w
      | Some a \<Rightarrow>
          let active = cheap w a in
          if \<not> signalAborted_c active then
            (let r = (case reason of Some x \<Rightarrow> x | None \<Rightarrow> ''Interrupted'') in
             w\<lparr>cheap := (cheap w)(a := active\<lparr>abortReason_c := Some r, aborted_c := True,
                                               signalAborted_c := True,
                                               signalReason_c := Some r\<rparr>)\<rparr>)
          else w)"

definition interrupt_c :: "string option \<Rightarrow> cworld \<Rightarrow> cworld" where
  "interrupt_c reason w =
     abortCurrentRun (Some (case reason of Some r \<Rightarrow> r | None \<Rightarrow> ''Interrupted'')) w"

definition externalAbort_c :: "addr \<Rightarrow> string option \<Rightarrow> cworld \<Rightarrow> cworld" where
  "externalAbort_c a reason w =
     (if \<not> externalLinked_c (cheap w a) then w
      else abortCurrentRun (Some (case reason of Some r \<Rightarrow> r | None \<Rightarrow> ''Interrupted''))
             (w\<lparr>cheap := (cheap w)(a := (cheap w a)\<lparr>externalLinked_c := False\<rparr>)\<rparr>))"

text \<open>The set-up shared by \<open>runInternal\<close> and \<open>runStreamedInternal\<close> after the idle check.\<close>

definition beginRun_c :: "RunOpts \<Rightarrow> cworld \<Rightarrow> addr \<times> cworld" where
  "beginRun_c ro w =
     (let a = callocated w;
          active = \<lparr> signalAborted_c = False, signalReason_c = None,
                     externalLinked_c = hasSignal ro, aborted_c = False, abortReason_c = None \<rparr>
      in (a, w\<lparr>cheap := (cheap w)(a := active), callocated := Suc a,
               cstate := (cstate w)\<lparr>currentRun_c := Some a\<rparr>\<rparr>))"

definition isAbortError :: "thrown \<Rightarrow> bool" where
  "isAbortError e =
     (case e of
        JsError n c m \<Rightarrow> n = ''AbortError'' \<or> c = Some ''interrupted''
      | NonError v \<Rightarrow> False)"

definition createCancelledEvent :: "string \<Rightarrow> CoderStreamEvent" where
  "createCancelledEvent reason = cancelledEvent codex reason"

definition createInterruptedErrorEvent :: "string option \<Rightarrow> CoderStreamEvent" where
  "createInterruptedErrorEvent reason = interruptedErrorEvent codex reason"

definition normalizeCodexEvent :: "jsval \<Rightarrow> CoderStreamEvent list" where
  "normalizeCodexEvent event =
     (let ev = coalesce event (Some (JObj []));
          ty = getp ev ''type'';
          tys = (case ty of Some (JStr t) \<Rightarrow> Some t | _ \<Rightarrow> None);
          item = coalesce (getp ev ''item'') (Some (JObj []))
      in
      if ty = jstr ''thread.started'' then
        [mkEvent T_init codex [(''threadId'', getp ev ''thread_id''), (''originalItem'', ev)]]
      else if ty = jstr ''turn.started'' then
        [mkEvent T_progress codex [(''label'', jstr ''turn.started''), (''originalItem'', ev)]]
      else if (case tys of Some t \<Rightarrow> startsWith t ''permission.'' | None \<Rightarrow> False) then
        [mkEvent T_permission codex
           [(''request'', coalesce (getp ev ''permission'') (getp ev ''request'')),
            (''decision'', (if endsWith (the tys) ''granted'' then jstr ''granted''
                            else if endsWith (the tys) ''denied'' then jstr ''denied'' else None)),
            (''originalItem'', ev)]]
      else if ty = jstr ''item.delta'' then
        (if getp item ''type'' = jstr ''agent_message'' then
           [mkEvent T_message codex
              [(''role'', jstr ''assistant''),
               (''text'', coalesce (getp ev ''delta'') (getp item ''text'')),
               (''delta'', Some (JBool True)), (''originalItem'', ev)]]
         else
           [mkEvent T_progress codex
              [(''label'', jstr (''item.delta:'' @
                  js_String (the (coalesce (getp item ''type'') (jstr ''event''))))),
               (''detail'', (case getp ev ''delta'' of Some (JStr d) \<Rightarrow> jstr d | _ \<Rightarrow> None)),
               (''originalItem'', ev)]])
      else if ty = jstr ''item.completed'' then
        (if getp item ''type'' = jstr ''agent_message'' then
           [mkEvent T_message codex
              [(''role'', jstr ''assistant''), (''text'', getp item ''text''),
               (''originalItem'', ev)]]
         else
           [mkEvent T_progress codex
              [(''label'', jstr (''item.completed:'' @
                  js_String (the (coalesce (getp item ''type'') (jstr ''event''))))),
               (''originalItem'', ev)]])
      else if ty = jstr ''tool_use'' then
        [mkEvent T_tool_use codex
           [(''name'', coalesce (getp (getp ev ''item'') ''name'') (jstr ''tool'')),
            (''callId'', getp (getp ev ''item'') ''id''),
            (''args'', getp (getp ev ''item'') ''input''),
            (''originalItem'', ev)]]
      else if ty = jstr ''tool_result'' then
        [mkEvent T_tool_result codex
           [(''name'', coalesce (getp (getp ev ''item'') ''name'') (jstr ''tool'')),
            (''callId'', getp (getp ev ''item'') ''id''),
            (''result'', getp (getp ev ''item'') ''output''),
            (''exitCode'', coalesce (getp (getp ev ''item'') ''exit_code'') jnull),
            (''originalItem'', ev)]]
      else if ty = jstr ''turn.completed'' then
        [mkEvent T_usage codex [(''stats'', getp ev ''usage''), (''originalItem'', ev)],
         mkEvent T_done codex [(''originalItem'', ev)]]
      else if ty = jstr ''turn.failed'' then
        [mkEvent T_error codex
           [(''code'', jstr ''turn.failed''),
            (''message'', coalesce (getp (getp ev ''error'') ''message'') (jstr ''Codex turn failed'')),
            (''originalItem'', ev)]]
      else
        [mkEvent T_progress codex
           [(''label'', coalesce ty (jstr ''codex.event'')), (''originalItem'', ev)]])"

subsection \<open>Streamed codex run\<close>

text \<open>
  Where the async generator of \<open>runStreamedInternal\<close> stands: not started; awaiting
  \<open>createThread\<close> and \<open>thread.runStreamed\<close>; awaiting the next backend event; suspended at
  the \<open>yield\<close> of the loop; suspended at the first or the second \<open>yield\<close> of the \<open>catch\<close>
  block; over.
\<close>

datatype cphase =
    CStart
  | CAwaitRun
  | CAwaitEvent
  | CYield
  | CCatch1 string
  | CCatch2
  | CEnded outcome

text \<open>
  \<open>pending\<close> holds the normalised events of the current backend event that are still
  to be yielded; \<open>cyielded\<close> what the consumer has received; \<open>caught\<close> the error the
  \<open>catch\<close> block was entered with.
\<close>

record cstream =
  cw :: cworld
  crid :: addr
  cphase :: cphase
  pending :: "CoderStreamEvent list"
  cyielded :: "CoderStreamEvent list"
  completed :: bool
  threw :: bool
  caught :: "thrown option"

definition runStreamedInternal_c :: "RunOpts \<Rightarrow> cworld \<Rightarrow> thrown + cstream" where
  "runStreamedInternal_c ro w =
     (case assertIdle_c (cstate w) of
        Some e \<Rightarrow> Inl e
      | None \<Rightarrow>
          (case beginRun_c ro w of
             (a, w1) \<Rightarrow>
               Inr \<lparr> cw = w1, crid = a, cphase = CStart, pending = [], cyielded = [],
                     completed = False, threw = False, caught = None \<rparr>))"

definition finally_c :: "cstream \<Rightarrow> cstream" where
  "finally_c s =
     (let w0 = cw s;
          w1 = (if \<not> completed s \<and> \<not> signalAborted_c (cheap w0 (crid s)) \<and> \<not> threw s
                then abortCurrentRun (Some ''Stream closed'') w0 else w0);
          w2 = w1\<lparr>cheap := (cheap w1)(crid s := (cheap w1 (crid s))\<lparr>externalLinked_c := False\<rparr>)\<rparr>;
          w3 = (if currentRun_c (cstate w2) = Some (crid s)
                then w2\<lparr>cstate := (cstate w2)\<lparr>currentRun_c := None\<rparr>\<rparr> else w2)
      in s\<lparr>cw := w3\<rparr>)"

text \<open>The loop takes up the events of one backend event and yields the first.\<close>

definition yieldNext :: "cstream \<Rightarrow> cstream" where
  "yieldNext s =
     (case pending s of
        [] \<Rightarrow> s\<lparr>cphase := CAwaitEvent\<rparr>
      | e # es \<Rightarrow> s\<lparr>pending := es, cyielded := cyielded s @ [e], cphase := CYield\<rparr>)"

definition catch_c :: "thrown \<Rightarrow> cstream \<Rightarrow> cstream" where
  "catch_c err s =
     (let s1 = s\<lparr>threw := True, caught := Some err\<rparr>; active = cheap (cw s1) (crid s1) in
      if isAbortError err then
        (let reason =
               (case orElse (abortReason_c active)
                       (orElse (signalReason_c active)
                          (case err of JsError n c m \<Rightarrow> Some m | NonError v \<Rightarrow> None)) of
                  Some r \<Rightarrow> r
                | None \<Rightarrow> ''Interrupted'')
         in s1\<lparr>cyielded := cyielded s1 @ [createCancelledEvent reason],
                cphase := CCatch1 reason\<rparr>)
      else (finally_c s1)\<lparr>cphase := CEnded (Threw err)\<rparr>)"

text \<open>
  What can happen to a streamed codex run: the SDK resolves \<open>runStreamed\<close> (with the
  thread's id), yields a native event, ends its sequence or raises; the handle is
  interrupted or the caller's signal aborts; the consumer pulls or leaves.
\<close>

datatype csignal =
    Started "string option"
  | BEvent jsval
  | BEnd
  | BRaise thrown
  | CInterrupt "string option"
  | CExternalAbort "string option"
  | CPull
  | CReturn

definition cstep :: "csignal \<Rightarrow> cstream \<Rightarrow> cstream" where
  "cstep sg s =
     (case sg of
        CPull \<Rightarrow>
          (case cphase s of
             CStart \<Rightarrow> s\<lparr>cphase := CAwaitRun, cw := (cw s)\<lparr>sdkCalls := sdkCalls (cw s) + 1\<rparr>\<rparr>
           | CYield \<Rightarrow> yieldNext s
           | CCatch1 reason \<Rightarrow>
               s\<lparr>cyielded := cyielded s @ [createInterruptedErrorEvent (Some reason)],
                 cphase := CCatch2\<rparr>
           | CCatch2 \<Rightarrow> (finally_c s)\<lparr>cphase := CEnded Completed\<rparr>
           | _ \<Rightarrow> s)
      | CReturn \<Rightarrow>
          (case cphase s of
             CStart \<Rightarrow> s\<lparr>cphase := CEnded Returned\<rparr>
           | CYield \<Rightarrow> (finally_c s)\<lparr>cphase := CEnded Returned\<rparr>
           | CCatch1 reason \<Rightarrow> (finally_c s)\<lparr>cphase := CEnded Returned\<rparr>
           | CCatch2 \<Rightarrow> (finally_c s)\<lparr>cphase := CEnded Returned\<rparr>
           | _ \<Rightarrow> s)
      | Started tid \<Rightarrow>
          (if cphase s = CAwaitRun then
             (if truthy_str tid
              then s\<lparr>cw := (cw s)\<lparr>cstate := (cstate (cw s))\<lparr>id_c := tid\<rparr>, chandle_id := tid\<rparr>,
                     cphase := CAwaitEvent\<rparr>
              else s\<lparr>cphase := CAwaitEvent\<rparr>)
           else s)
      | BEvent ev \<Rightarrow>
          (if cphase s = CAwaitEvent then yieldNext (s\<lparr>pending := normalizeCodexEvent ev\<rparr>)
           else s)
      | BEnd \<Rightarrow>
          (if cphase s = CAwaitEvent
           then (finally_c (s\<lparr>completed := True\<rparr>))\<lparr>cphase := CEnded Completed\<rparr>
           else s)
      | BRaise err \<Rightarrow>
          (if cphase s = CAwaitRun \<or> cphase s = CAwaitEvent then catch_c err s else s)
      | CInterrupt r \<Rightarrow> s\<lparr>cw := interrupt_c r (cw s)\<rparr>
      | CExternalAbort r \<Rightarrow> s\<lparr>cw := externalAbort_c (crid s) r (cw s)\<rparr>)"

definition crun :: "csignal list \<Rightarrow> cstream \<Rightarrow> cstream" where
  "crun sigs s = foldl (\<lambda>s sg. cstep sg s) s sigs"

text \<open>\<open>runInternal\<close> of the codex adapter up to its first \<open>await\<close>.\<close>

definition runInternal_start_c :: "RunOpts \<Rightarrow> cworld \<Rightarrow> thrown + (addr \<times> cworld)" where
  "runInternal_start_c ro w =
     (case assertIdle_c (cstate w) of
        Some e \<Rightarrow> Inl e
      | None \<Rightarrow>
          (case beginRun_c ro w of
             (a, w1) \<Rightarrow> Inr (a, w1\<lparr>sdkCalls := sdkCalls w1 + 1\<rparr>)))"


section \<open>Claude adapter\<close>

text \<open>
  The claude thread handle: its id and, inside, the session id, the start options and
  whether the thread was resumed. The handle holds no run slot. \<open>queries\<close> counts the
  calls of the SDK's \<open>query\<close>; \<open>inFlight\<close> counts those whose message sequence has not
  ended yet (an observation of the model: the adapter keeps no such count).
\<close>

record ClaudeHandle =
  id_k :: "string option"
  sessionId_k :: "string option"
  opts_k :: StartOpts
  resume_k :: bool

record kworld =
  khandle :: ClaudeHandle
  queries :: nat
  inFlight :: nat

definition startThread_k :: "StartOpts \<Rightarrow> StartOpts \<Rightarrow> string \<Rightarrow> kworld" where
  "startThread_k defaultOpts ov uuid =
     (let options = mergeStartOpts defaultOpts ov;
          i = (case resume options of Some r \<Rightarrow> r | None \<Rightarrow> uuid)
      in \<lparr> khandle = \<lparr> id_k = Some i, sessionId_k = Some i, opts_k = options, resume_k = False \<rparr>,
           queries = 0, inFlight = 0 \<rparr>)"

text \<open>
  \<open>run\<close> and the body of \<open>runStreamed\<close> begin alike: the prompt and the options are
  built and \<open>query\<close> is called. There is no branch that rejects.
\<close>

definition run_begin_k :: "kworld \<Rightarrow> thrown + kworld" where
  "run_begin_k w = Inr (w\<lparr>queries := queries w + 1, inFlight := inFlight w + 1\<rparr>)"

definition claudeResultIndicatesError :: "jsval \<Rightarrow> bool" where
  "claudeResultIndicatesError result =
     (truthy (getp result ''is_error'')
      \<or> startsWith (js_String (the (coalesce (getp result ''subtype'') (jstr [])))) ''error'')"

definition buildClaudeResultErrorMessage :: "jsval \<Rightarrow> string" where
  "buildClaudeResultErrorMessage result =
     ''Claude run failed: '' @
       js_String (the (coalesce (getp result ''result'')
                    (coalesce (case getp result ''errors'' of
                                 Some (JArr xs) \<Rightarrow> jstr (js_join '', '' xs)
                               | _ \<Rightarrow> None)
                              (jstr ''Claude run failed''))))"

definition tryExtract :: "jsval \<Rightarrow> string" where
  "tryExtract candidate =
     (case candidate of
        Some (JStr s) \<Rightarrow> s
      | Some (JArr items) \<Rightarrow>
          trim (join [CHR 0x0A]
                  (filter (\<lambda>t. t \<noteq> [])
                     (map (\<lambda>item. case getp (Some item) ''text'' of
                                     Some (JStr t) \<Rightarrow> t | _ \<Rightarrow> []) items)))
      | Some (JObj kvs) \<Rightarrow> (case map_of kvs ''text'' of Some (JStr t) \<Rightarrow> t | _ \<Rightarrow> [])
      | _ \<Rightarrow> [])"

definition extractClaudeAssistantText :: "jsval \<Rightarrow> string" where
  "extractClaudeAssistantText message =
     (if \<not> truthy message then []
      else
        let direct = tryExtract (coalesce (getp message ''text'') (getp message ''content'')) in
        if direct \<noteq> [] then direct
        else
          let nested = tryExtract (coalesce (getp (getp message ''message'') ''text'')
                                            (getp (getp message ''message'') ''content'')) in
          if nested \<noteq> [] then nested
          else tryExtract (coalesce (getp message ''delta'') (getp message ''partial'')))"

definition normalizeClaudeStreamMessage :: "jsval \<Rightarrow> string option \<Rightarrow> CoderStreamEvent list" where
  "normalizeClaudeStreamMessage message tid =
     (let typeRaw = toLowerCase (js_String (the (coalesce (getp message ''type'') (jstr [])))) in
      if includes_str typeRaw ''system'' \<or> includes_str typeRaw ''session'' then
        [mkEvent T_init claude
           [(''threadId'', coalesce (getp message ''session_id'') (map_option JStr tid)),
            (''raw'', message)]]
      else if includes_str typeRaw ''partial'' then
        [mkEvent T_message claude
           [(''role'', jstr ''assistant''),
            (''text'', coalesce (getp message ''text'') (getp message ''content'')),
            (''delta'', Some (JBool True)), (''raw'', message)]]
      else if includes_str typeRaw ''assistant'' then
        [mkEvent T_message claude
           [(''role'', jstr ''assistant''),
            (''text'', jstr (extractClaudeAssistantText message)), (''raw'', message)]]
      else if includes_str typeRaw ''tool_use'' then
        [mkEvent T_tool_use claude
           [(''name'', coalesce (getp message ''tool_name'') (getp message ''tool'')),
            (''callId'', getp message ''id''), (''args'', getp message ''input''),
            (''raw'', message)]]
      else if includes_str typeRaw ''tool-result'' then
        [mkEvent T_tool_result claude
           [(''name'', coalesce (getp message ''tool_name'') (getp message ''tool'')),
            (''callId'', coalesce (getp message ''tool_use_id'') (getp message ''id'')),
            (''result'', getp message ''output''), (''raw'', message)]]
      else if includes_str typeRaw ''permission'' then
        [mkEvent T_permission claude [(''raw'', message)]]
      else if includes_str typeRaw ''result'' then
        (if claudeResultIndicatesError message then
           [mkEvent T_error claude
              [(''message'', jstr (buildClaudeResultErrorMessage message)), (''raw'', message)]]
         else
           (if truthy (getp message ''usage'')
            then [mkEvent T_usage claude [(''stats'', getp message ''usage''), (''raw'', message)]]
            else [])
           @ [mkEvent T_done claude [(''raw'', message)]])
      else
        [mkEvent T_progress claude
           [(''label'', jstr (if typeRaw \<noteq> [] then typeRaw else ''claude.event'')),
            (''raw'', message)]])"

text \<open>How the SDK's message sequence stops: it ends, or it raises.\<close>

datatype source_end = EndOk | Raise thrown

text \<open>
  The inner loop of \<open>runStreamed\<close> over the events of one message: the events yielded,
  whether the generator returned on an \<open>error\<close> event, and \<open>sawDone\<close> afterwards.
\<close>

fun yieldEvents_k ::
  "CoderStreamEvent list \<Rightarrow> bool \<Rightarrow> CoderStreamEvent list \<times> bool \<times> bool" where
  "yieldEvents_k [] sawDone = ([], False, sawDone)"
| "yieldEvents_k (e # es) sawDone =
     (if etype e = T_error then ([e], True, sawDone)
      else (case yieldEvents_k es (sawDone \<or> etype e = T_done) of
              (ys, returned, sd) \<Rightarrow> (e # ys, returned, sd)))"

text \<open>
  \<open>runStreamed\<close> for a consumer that takes every event: the events yielded and how the
  iteration ends.
\<close>

fun runStreamed_loop_k ::
  "jsval list \<Rightarrow> source_end \<Rightarrow> string option \<Rightarrow> bool \<Rightarrow> CoderStreamEvent list \<times> outcome" where
  "runStreamed_loop_k [] ending tid sawDone =
     (case ending of
        EndOk \<Rightarrow>
          ((if \<not> sawDone
            then [mkEvent T_done claude [(''raw'', Some (JObj [(''reason'', JStr ''completed'')]))]]
            else []), Completed)
      | Raise e \<Rightarrow> ([], Threw e))"
| "runStreamed_loop_k (m # ms) ending tid sawDone =
     (case yieldEvents_k (normalizeClaudeStreamMessage m tid) sawDone of
        (ys, returned, sd) \<Rightarrow>
          if returned then (ys, Completed)
          else (case runStreamed_loop_k ms ending tid sd of (zs, oc) \<Rightarrow> (ys @ zs, oc)))"

definition runStreamed_k :: "jsval list \<Rightarrow> source_end \<Rightarrow> kworld \<Rightarrow> CoderStreamEvent list \<times> outcome" where
  "runStreamed_k msgs ending w = runStreamed_loop_k msgs ending (id_k (khandle w)) False"

subsection \<open>The extraction as the specification words it\<close>


subsection \<open>Sample inputs\<close>

text \<open>
  The values of \<open>JSON.parse\<close> on the documents the examples below use; every other
  string the examples hand to it (\<open>not json\<close>, \<open>nope\<close>) is not JSON.
\<close>

definition sample_parse :: json_parse where
  \<open>sample_parse s =
     map_of
       [(''{"x":1}'', JObj [(''x'', JNum 1)]),
        (''{"type":"message","content":"hi"}'',
           JObj [(''type'', JStr ''message''), (''content'', JStr ''hi'')]),
        (''{"type":"error","message":"tool failed"}'',
           JObj [(''type'', JStr ''error''), (''message'', JStr ''tool failed'')]),
        (''{"type":"result"}'', JObj [(''type'', JStr ''result'')]),
        (''{"response":{"x":1}}'', JObj [(''response'', JObj [(''x'', JNum 1)])]),
        (''{"text":"plain"}'', JObj [(''text'', JStr ''plain'')])] s\<close>

definition noOpts :: StartOpts where
  "noOpts =
     \<lparr> model = None, workingDirectory = None, sandboxMode = None, skipGitRepoCheck = None,
       codexExecutablePath = None, resume = None, geminiBinaryPath = None,
       includeDirectories = None, yolo = None \<rparr>"

definition plainRun :: RunOpts where
  "plainRun = \<lparr> outputSchema = None, hasSignal = False \<rparr>"

text \<open>A fresh gemini thread at time 0, with no session listed by the CLI.\<close>

definition freshThread :: "StartOpts \<Rightarrow> gworld" where
  "freshThread ov = createThreadHandle 0 [] (startThread noOpts ov)"

section \<open>Observations the properties are stated with\<close>

text \<open>The thread still holds \<open>r\<close> as its session id and as its cached resume token.\<close>

definition resume_kept :: "string \<Rightarrow> gworld \<Rightarrow> bool" where
  "resume_kept r w = (id_g (state w) = Some r \<and> resumeToken (state w) = Some r)"

definition has_type :: "etype \<Rightarrow> CoderStreamEvent list \<Rightarrow> bool" where
  "has_type t evs = list_ex (\<lambda>e. etype e = t) evs"

definition is_interrupted :: "CoderStreamEvent \<Rightarrow> bool" where
  "is_interrupted e = (etype e = T_error \<and> map_of (props e) ''code'' = Some (jstr ''interrupted''))"

text \<open>An entry that a line of output gives rise to: an event other than \<open>cancelled\<close>.\<close>

fun line_entry :: "entry \<Rightarrow> bool" where
  "line_entry (Ev e) = (etype e \<noteq> T_cancelled)"
| "line_entry x = False"

fun is_Ev :: "entry \<Rightarrow> bool" where
  "is_Ev (Ev e) = True"
| "is_Ev x = False"

text \<open>
  The shape of what a streamed gemini run pushes: events of output lines and then,
  exactly when the run is \<open>finished\<close>, one ending: \<open>DONE\<close> alone, an error and \<open>DONE\<close>, or
  \<open>cancelled\<close>, the \<open>interrupted\<close> error and \<open>DONE\<close>.
\<close>

fun interrupted_end :: "entry list \<Rightarrow> bool" where
  "interrupted_end [Ev e2, DONE] = is_interrupted e2"
| "interrupted_end t = False"

fun shape :: "bool \<Rightarrow> entry list \<Rightarrow> bool" where
  "shape fin [] = (\<not> fin)"
| "shape fin (Ev e # t) =
     (if etype e = T_cancelled then fin \<and> interrupted_end t else shape fin t)"
| "shape fin (Failure x # t) = (fin \<and> t = [DONE])"
| "shape fin (DONE # t) = (fin \<and> t = [])"

text \<open>
  The generator and the queue agree: nothing is in flight between them, a waiter is
  registered exactly while the generator awaits, and a generator that is not over has
  received events only.
\<close>

fun is_over :: "gen_state \<Rightarrow> bool" where
  "is_over (Ended oc) = True"
| "is_over g = False"

definition ginv :: "gstream \<Rightarrow> bool" where
  "ginv s =
     (inbox s = [] \<and> shape (finished s) (trace s)
      \<and> (if gen s = Awaiting then waiters s = 1 \<and> queue s = [] \<and> \<not> finished s
         else waiters s = 0)
      \<and> (is_over (gen s) \<or> list_all is_Ev (delivered s)))"

text \<open>
  In a list of events delivered to a consumer, a \<open>cancelled\<close> event is followed by the
  \<open>interrupted\<close> error at most, and an \<open>error\<close> event is the last one.
\<close>

fun interrupted_only :: "CoderStreamEvent list \<Rightarrow> bool" where
  "interrupted_only [] = True"
| "interrupted_only [e2] = is_interrupted e2"
| "interrupted_only es = False"

fun ends_ok :: "CoderStreamEvent list \<Rightarrow> bool" where
  "ends_ok [] = True"
| "ends_ok (e # es) =
     (if etype e = T_cancelled then interrupted_only es else ends_ok es)"

fun error_last :: "CoderStreamEvent list \<Rightarrow> bool" where
  "error_last [] = True"
| "error_last (e # es) = (if etype e = T_error then es = [] else error_last es)"

text \<open>The codex token and its controller's signal agree on the current run.\<close>

definition consistent_c :: "cworld \<Rightarrow> bool" where
  "consistent_c w =
     (case currentRun_c (cstate w) of
        None \<Rightarrow> True
      | Some a \<Rightarrow> aborted_c (cheap w a) = signalAborted_c (cheap w a))"

text \<open>
  Signals that neither abort a run nor end it: output lines, the output stream
  closing, time passing, and the consumer pulling.
\<close>

fun benign :: "gsignal \<Rightarrow> bool" where
  "benign (Line l) = True"
| "benign Close = True"
| "benign (Elapse d) = True"
| "benign Pull = True"
| "benign sg = False"

text \<open>
  A streamed run that is neither finished nor aborted, whose process is running and
  whose consumer has not stopped.
\<close>

definition live :: "gstream \<Rightarrow> bool" where
  "live s =
     (ginv s \<and> \<not> finished s \<and> \<not> aborted (activeOf s) \<and> exitListener s
      \<and> running (child (activeOf s)) \<and> \<not> is_over (gen s))"

text \<open>
  The events that the lines of a schedule give rise to, in order: for each line that
  parses, the events the normalizer makes of it.
\<close>

fun line_events :: "json_parse \<Rightarrow> gsignal list \<Rightarrow> CoderStreamEvent list" where
  "line_events parse [] = []"
| "line_events parse (Line l # sigs) =
     (case parse l of None \<Rightarrow> [] | Some ev \<Rightarrow> normalizeGeminiEvent (Some ev))
     @ line_events parse sigs"
| "line_events parse (sg # sigs) = line_events parse sigs"

text \<open>
  What the generator has received agrees with how it stands: one that completed
  received events and then \<open>DONE\<close>, one that threw received events and then that error,
  any other has received events only.
\<close>

fun delivered_ok :: "gen_state \<Rightarrow> entry list \<Rightarrow> bool" where
  "delivered_ok (Ended Completed) d = (d \<noteq> [] \<and> last d = DONE \<and> list_all is_Ev (butlast d))"
| "delivered_ok (Ended (Threw x)) d =
     (d \<noteq> [] \<and> last d = Failure x \<and> list_all is_Ev (butlast d))"
| "delivered_ok g d = list_all is_Ev d"

text \<open>The \<open>catch\<close> block of a streamed codex run was entered with an abort-shaped error.\<close>

definition abort_caught :: "cstream \<Rightarrow> bool" where
  "abort_caught s = (case caught s of Some e \<Rightarrow> isAbortError e | None \<Rightarrow> False)"

fun is_ended :: "cphase \<Rightarrow> bool" where
  "is_ended (CEnded oc) = True"
| "is_ended p = False"

text \<open>
  The state of a streamed codex run agrees with its phase: before the \<open>catch\<close> block no
  \<open>cancelled\<close> event was yielded; inside it the events end with \<open>cancelled\<close>, then with
  \<open>cancelled\<close> and the \<open>interrupted\<close> error.
\<close>

definition cinv :: "cstream \<Rightarrow> bool" where
  "cinv s =
     (\<not> has_type T_cancelled (pending s)
      \<and> (case cphase s of
           CCatch1 r \<Rightarrow>
             abort_caught s
             \<and> (\<exists>pre. \<not> has_type T_cancelled pre \<and> cyielded s = pre @ [createCancelledEvent r])
         | CCatch2 \<Rightarrow>
             abort_caught s
             \<and> (\<exists>pre r. \<not> has_type T_cancelled pre
                   \<and> cyielded s = pre @ [createCancelledEvent r, createInterruptedErrorEvent (Some r)])
         | CEnded oc \<Rightarrow>
             has_type T_cancelled (cyielded s) = abort_caught s \<and> ends_ok (cyielded s)
         | _ \<Rightarrow> caught s = None \<and> \<not> has_type T_cancelled (cyielded s)))"

text \<open>
  The claim of exactly one terminal outcome, as the specification words it: the
  events from the first terminal one (\<open>done\<close>, \<open>error\<close> or \<open>cancelled\<close>) on are a single
  \<open>done\<close>, a single \<open>error\<close>, or \<open>cancelled\<close> and \<open>error\<close>; an iteration that throws has
  delivered no terminal event.
\<close>

definition is_terminal_event :: "CoderStreamEvent \<Rightarrow> bool" where
  "is_terminal_event e = (etype e = T_done \<or> etype e = T_error \<or> etype e = T_cancelled)"

fun terminal_tail :: "CoderStreamEvent list \<Rightarrow> bool" where
  "terminal_tail [d] = (etype d = T_done \<or> etype d = T_error)"
| "terminal_tail [c, e] = (etype c = T_cancelled \<and> etype e = T_error)"
| "terminal_tail es = False"

definition one_terminal_outcome :: "CoderStreamEvent list \<Rightarrow> outcome \<Rightarrow> bool" where
  "one_terminal_outcome evs oc =
     (case oc of
        Threw x \<Rightarrow> dropWhile (\<lambda>e. \<not> is_terminal_event e) evs = []
      | _ \<Rightarrow> terminal_tail (dropWhile (\<lambda>e. \<not> is_terminal_event e) evs))"

text \<open>
  A world operation keeps a fact about every run object; and the invariant that a
  \<open>cancelled\<close> event is pushed only for an aborted run.
\<close>

definition keeps :: "(ActiveRun \<Rightarrow> bool) \<Rightarrow> (gworld \<Rightarrow> gworld) \<Rightarrow> bool" where
  "keeps P f = (\<forall>w b. P (heap w b) \<longrightarrow> P (heap (f w) b))"

definition cancel_inv :: "gstream \<Rightarrow> bool" where
  "cancel_inv s = (has_type T_cancelled (events_of (trace s)) \<longrightarrow> aborted (activeOf s))"

section \<open>Properties\<close>

subsection \<open>Auxiliary facts\<close>

lemma world_push [simp]: "world (push e s) = world s"
  by (simp add: push_def)

lemma world_emit [simp]: "world (emit es s) = world s"
  unfolding emit_def by (induction es arbitrary: s) simp_all

lemma finished_push [simp]: "finished (push e s) = finished s"
  by (simp add: push_def)

lemma finished_emit [simp]: "finished (emit es s) = finished s"
  unfolding emit_def by (induction es arbitrary: s) simp_all

lemma rid_push [simp]: "rid (push e s) = rid s"
  by (simp add: push_def)

lemma rid_emit [simp]: "rid (emit es s) = rid s"
  unfolding emit_def by (induction es arbitrary: s) simp_all

lemma emit_Nil [simp]: "emit [] s = s"
  by (simp add: emit_def)

lemma emit_Cons: "emit (e # es) s = emit es (push e s)"
  by (simp add: emit_def)

lemma emit_no_waiters: "waiters s = 0 \<Longrightarrow> emit es s = s\<lparr>queue := queue s @ es\<rparr>"
proof (induction es arbitrary: s)
  case Nil
  then show ?case by simp
next
  case (Cons e es)
  have "push e s = s\<lparr>queue := queue s @ [e]\<rparr>"
    using Cons.prems by (simp add: push_def)
  moreover have "waiters (s\<lparr>queue := queue s @ [e]\<rparr>) = 0"
    using Cons.prems by simp
  ultimately show ?case
    using Cons.IH[of "s\<lparr>queue := queue s @ [e]\<rparr>"] by (simp add: emit_Cons)
qed

lemma emit_one_waiter:
  "waiters s = 1 \<Longrightarrow> emit (e # es) s = s\<lparr>waiters := 0, inbox := inbox s @ [e], queue := queue s @ es\<rparr>"
  by (simp add: emit_Cons push_def emit_no_waiters)

lemma shape_False_iff: "shape False t = list_all line_entry t"
proof (induction t)
  case Nil
  then show ?case by simp
next
  case (Cons x t)
  then show ?case by (cases x) auto
qed

lemma shape_append_lines:
  "shape False t \<Longrightarrow> list_all line_entry es \<Longrightarrow> shape False (t @ es)"
  by (simp add: shape_False_iff)

lemma shape_finish_DONE: "list_all line_entry t \<Longrightarrow> shape True (t @ [DONE])"
proof (induction t)
  case Nil
  then show ?case by simp
next
  case (Cons x t)
  then show ?case by (cases x) auto
qed

lemma shape_finish_Failure: "list_all line_entry t \<Longrightarrow> shape True (t @ [Failure e, DONE])"
proof (induction t)
  case Nil
  then show ?case by simp
next
  case (Cons x t)
  then show ?case by (cases x) auto
qed

lemma shape_finish_cancelled:
  "list_all line_entry t \<Longrightarrow> etype c = T_cancelled \<Longrightarrow> is_interrupted e2 \<Longrightarrow>
   shape True (t @ [Ev c, Ev e2, DONE])"
proof (induction t)
  case Nil
  then show ?case by simp
next
  case (Cons x t)
  then show ?case by (cases x) auto
qed

lemma interrupted_end_DONE: "interrupted_end t \<Longrightarrow> DONE \<in> set t"
  by (induction t rule: interrupted_end.induct) simp_all

lemma shape_True_DONE: "shape True t \<Longrightarrow> DONE \<in> set t"
proof (induction t)
  case Nil
  then show ?case by simp
next
  case (Cons x t)
  show ?case
  proof (cases x)
    case (Ev e)
    show ?thesis
    proof (cases "etype e = T_cancelled")
      case True
      with Cons.prems Ev have "interrupted_end t" by simp
      then show ?thesis by (simp add: interrupted_end_DONE)
    next
      case False
      with Cons Ev show ?thesis by simp
    qed
  next
    case (Failure e)
    with Cons.prems show ?thesis by simp
  next
    case DONE
    then show ?thesis by simp
  qed
qed

lemma shape_True_not_all_Ev: "list_all is_Ev t \<Longrightarrow> \<not> shape True t"
proof
  assume a: "list_all is_Ev t" and "shape True t"
  then have "DONE \<in> set t" by (simp add: shape_True_DONE)
  with a show False by (auto simp: list_all_iff)
qed

lemma normalize_no_cancelled: "list_all line_entry (map Ev (normalizeGeminiEvent ev))"
  by (simp add: normalizeGeminiEvent_def Let_def mkEvent_def)

lemma cancelledPair_shape:
  "list_all line_entry t \<Longrightarrow> shape True (t @ cancelledPair active)"
  unfolding cancelledPair_def Let_def
  by (rule shape_finish_cancelled)
     (simp_all add: cancelledEvent_def interruptedErrorEvent_def mkEvent_def is_interrupted_def)

lemma gen_finally_fields [simp]:
  "finished (gen_finally s) = finished s"
  "queue (gen_finally s) = queue s"
  "waiters (gen_finally s) = waiters s"
  "inbox (gen_finally s) = inbox s"
  "delivered (gen_finally s) = delivered s"
  "gen (gen_finally s) = gen s"
  "rid (gen_finally s) = rid s"
  by (simp_all add: gen_finally_def Let_def)

lemma receive_fields [simp]:
  "finished (receive e s) = finished s"
  "queue (receive e s) = queue s"
  "waiters (receive e s) = waiters s"
  "inbox (receive e s) = inbox s"
  "delivered (receive e s) = delivered s @ [e]"
  "rid (receive e s) = rid s"
  by (cases e; simp add: receive_def Let_def)+

lemma gen_receive:
  "gen (receive e s) = (case e of Ev ev \<Rightarrow> SuspendedYield | Failure x \<Rightarrow> Ended (Threw x) | DONE \<Rightarrow> Ended Completed)"
  by (cases e) (simp_all add: receive_def Let_def)

lemma settle_idle [simp]: "inbox s = [] \<Longrightarrow> settle s = s"
  by (simp add: settle_def)

lemma ginv_emit:
  assumes i: "inbox s = []"
    and w: "if gen s = Awaiting then waiters s = 1 \<and> queue s = [] else waiters s = 0"
    and d: "is_over (gen s) \<or> list_all is_Ev (delivered s)"
    and sh: "shape (finished s) (trace s @ es)"
    and fin: "gen s = Awaiting \<Longrightarrow> es = [] \<Longrightarrow> \<not> finished s"
  shows "ginv (settle (emit es s))"
proof (cases "gen s = Awaiting")
  case True
  show ?thesis
  proof (cases es)
    case Nil
    with True i w d sh fin show ?thesis by (simp add: ginv_def)
  next
    case (Cons e es')
    have em: "emit es s = s\<lparr>waiters := 0, inbox := [e], queue := es'\<rparr>"
      using True w i Cons by (simp add: emit_one_waiter)
    have st: "settle (emit es s) = receive e (s\<lparr>waiters := 0, queue := es', inbox := []\<rparr>)"
      using True by (simp add: em settle_def)
    have tr: "trace (receive e (s\<lparr>waiters := 0, queue := es', inbox := []\<rparr>)) = trace s @ es"
      using True w i Cons by (simp add: trace_def)
    have dl: "list_all is_Ev (delivered s)"
      using True d by simp
    show ?thesis
      unfolding st ginv_def tr
      using sh dl by (cases e) (simp_all add: gen_receive)
  qed
next
  case False
  have em: "emit es s = s\<lparr>queue := queue s @ es\<rparr>"
    using False w by (simp add: emit_no_waiters)
  have tr: "trace (s\<lparr>queue := queue s @ es\<rparr>) = trace s @ es"
    by (simp add: trace_def)
  show ?thesis
    using False i w d sh by (simp add: em ginv_def tr)
qed

lemma trace_upd [simp]:
  "trace (s\<lparr>world := w\<rparr>) = trace s"
  "trace (s\<lparr>finished := f\<rparr>) = trace s"
  "trace (s\<lparr>closeListener := b\<rparr>) = trace s"
  "trace (s\<lparr>exitListener := b\<rparr>) = trace s"
  "trace (s\<lparr>errorListener := b\<rparr>) = trace s"
  "trace (s\<lparr>lineListener := b\<rparr>) = trace s"
  "trace (s\<lparr>gen := g\<rparr>) = trace s"
  "trace (s\<lparr>waiters := n\<rparr>) = trace s"
  by (simp_all add: trace_def)

lemma ginv_parts:
  "ginv s \<Longrightarrow> inbox s = []"
  "ginv s \<Longrightarrow> shape (finished s) (trace s)"
  "ginv s \<Longrightarrow> (if gen s = Awaiting then waiters s = 1 \<and> queue s = [] \<and> \<not> finished s else waiters s = 0)"
  "ginv s \<Longrightarrow> (is_over (gen s) \<or> list_all is_Ev (delivered s))"
  by (simp_all add: ginv_def)

lemma ginv_world [simp]: "ginv (s\<lparr>world := w\<rparr>) = ginv s"
  by (simp add: ginv_def)

lemma ginv_listeners [simp]:
  "ginv (s\<lparr>closeListener := b\<rparr>) = ginv s"
  "ginv (s\<lparr>exitListener := b\<rparr>) = ginv s"
  "ginv (s\<lparr>errorListener := b\<rparr>) = ginv s"
  "ginv (s\<lparr>lineListener := b\<rparr>) = ginv s"
  by (simp_all add: ginv_def)

lemma ginv_handleLine: "ginv s \<Longrightarrow> ginv (settle (handleLine parse l s))"
proof -
  assume g: "ginv s"
  show ?thesis
  proof (cases "finished s \<or> parse l = None")
    case True
    with g show ?thesis by (auto simp: handleLine_def ginv_parts)
  next
    case False
    then obtain ev where ev: "parse l = Some ev" and nf: "\<not> finished s" by auto
    let ?s = "s\<lparr>world := captureGeminiSessionMetadata (Some ev) (world s)\<rparr>"
    have "ginv (settle (emit (map Ev (normalizeGeminiEvent (Some ev))) ?s))"
    proof (rule ginv_emit)
      show "inbox ?s = []" using g by (simp add: ginv_parts)
      show "if gen ?s = Awaiting then waiters ?s = 1 \<and> queue ?s = [] else waiters ?s = 0"
        using ginv_parts(3)[OF g] by (simp split: if_splits)
      show "is_over (gen ?s) \<or> list_all is_Ev (delivered ?s)"
        using ginv_parts(4)[OF g] by simp
      show "shape (finished ?s) (trace ?s @ map Ev (normalizeGeminiEvent (Some ev)))"
        using ginv_parts(2)[OF g] nf normalize_no_cancelled[of "Some ev"]
        by (simp add: shape_False_iff)
      show "\<not> finished ?s" using nf by simp
    qed
    then show ?thesis using ev nf by (simp add: handleLine_def)
  qed
qed

lemma ginv_finish:
  assumes g: "ginv s" and nf: "\<not> finished s"
    and es: "es = [DONE] \<or> es = [Failure x, DONE] \<or> es = cancelledPair a"
  shows "ginv (settle (emit es (s\<lparr>finished := True, world := w\<rparr>)))"
proof (rule ginv_emit)
  let ?s = "s\<lparr>finished := True, world := w\<rparr>"
  show "inbox ?s = []" using g by (simp add: ginv_parts)
  show "if gen ?s = Awaiting then waiters ?s = 1 \<and> queue ?s = [] else waiters ?s = 0"
    using ginv_parts(3)[OF g] by (simp split: if_splits)
  show "is_over (gen ?s) \<or> list_all is_Ev (delivered ?s)"
    using ginv_parts(4)[OF g] by simp
  have "list_all line_entry (trace s)"
    using ginv_parts(2)[OF g] nf by (simp add: shape_False_iff)
  then show "shape (finished ?s) (trace ?s @ es)"
    using es by (auto simp: shape_finish_DONE shape_finish_Failure cancelledPair_shape)
  show "gen ?s = Awaiting \<Longrightarrow> es = [] \<Longrightarrow> \<not> finished ?s"
    using es by (auto simp: cancelledPair_def Let_def)
qed

lemma upd_swap: "s\<lparr>world := w, finished := True\<rparr> = s\<lparr>finished := True, world := w\<rparr>"
  by simp

lemma ginv_handleClose: "ginv s \<Longrightarrow> ginv (settle (handleClose s))"
proof -
  assume g: "ginv s"
  show ?thesis
  proof (cases "finished s \<or> \<not> aborted (activeOf s)")
    case True
    with g show ?thesis by (auto simp: handleClose_def ginv_parts)
  next
    case False
    have "ginv (settle (emit (cancelledPair (activeOf s)) (s\<lparr>finished := True, world := world s\<rparr>)))"
      using g False by (intro ginv_finish) auto
    with False show ?thesis by (simp add: handleClose_def activeOf_def)
  qed
qed

lemma ginv_onExit: "ginv s \<Longrightarrow> ginv (settle (onExit code s))"
proof -
  assume g: "ginv s"
  show ?thesis
  proof (cases "finished s")
    case True
    with g show ?thesis by (simp add: onExit_def ginv_parts)
  next
    case False
    have fin: "\<And>es w. es = [DONE] \<or> es = [Failure (new_Error (''gemini exited with code '' @ code_str code)), DONE]
                 \<or> es = cancelledPair (activeOf s) \<Longrightarrow>
               ginv (settle (emit es (s\<lparr>finished := True, world := w\<rparr>)))"
      using g False by (intro ginv_finish) auto
    have same: "s\<lparr>finished := True\<rparr> = s\<lparr>finished := True, world := world s\<rparr>" by simp
    show ?thesis
      using False fin[of "[DONE]" "world s"] fin[of "[DONE]" "updateSessionMetadataFromList (world s)"]
        fin[of "cancelledPair (activeOf s)" "world s"]
        fin[of "[Failure (new_Error (''gemini exited with code '' @ code_str code)), DONE]" "world s"]
      by (simp add: onExit_def Let_def activeOf_def)
  qed
qed

lemma ginv_onError: "ginv s \<Longrightarrow> ginv (settle (onError e s))"
proof -
  assume g: "ginv s"
  show ?thesis
  proof (cases "finished s")
    case True
    with g show ?thesis by (simp add: onError_def ginv_parts)
  next
    case False
    have "ginv (settle (emit [Failure e, DONE] (s\<lparr>finished := True, world := world s\<rparr>)))"
      using g False by (intro ginv_finish) auto
    with False show ?thesis by (simp add: onError_def)
  qed
qed

lemma ginv_receive_queue:
  assumes g: "ginv s" and q: "queue s = e # q" and sus: "gen s = SuspendedStart \<or> gen s = SuspendedYield"
  shows "ginv (receive e (s\<lparr>queue := q\<rparr>))"
proof -
  have tr: "trace (receive e (s\<lparr>queue := q\<rparr>)) = trace s"
    using q ginv_parts(1)[OF g] by (simp add: trace_def)
  have dl: "list_all is_Ev (delivered s)"
    using ginv_parts(4)[OF g] sus by auto
  have w0: "waiters s = 0"
    using ginv_parts(3)[OF g] sus by auto
  show ?thesis
    unfolding ginv_def tr
    using ginv_parts(1,2)[OF g] dl w0 by (cases e) (simp_all add: gen_receive)
qed

lemma ginv_pull: "ginv s \<Longrightarrow> ginv (pull s)"
proof -
  assume g: "ginv s"
  show ?thesis
  proof (cases "gen s = SuspendedStart \<or> gen s = SuspendedYield")
    case False
    with g show ?thesis by (simp add: pull_def)
  next
    case sus: True
    show ?thesis
    proof (cases "queue s")
      case (Cons e q)
      with g sus show ?thesis by (simp add: pull_def ginv_receive_queue)
    next
      case Nil
      have dl: "list_all is_Ev (delivered s)"
        using ginv_parts(4)[OF g] sus by auto
      have "trace s = delivered s"
        using Nil ginv_parts(1)[OF g] by (simp add: trace_def)
      with dl ginv_parts(2)[OF g] have nf: "\<not> finished s"
        using shape_True_not_all_Ev[of "delivered s"] by (cases "finished s") auto
      have w0: "waiters s = 0"
        using ginv_parts(3)[OF g] sus by auto
      show ?thesis
        using sus Nil nf w0 dl ginv_parts(1,2)[OF g]
        by (auto simp: pull_def ginv_def trace_def)
    qed
  qed
qed

lemma trace_gen_finally [simp]: "trace (gen_finally s) = trace s"
  by (simp add: trace_def)

lemma ginv_finally_ended:
  assumes g: "ginv s" and na: "gen s \<noteq> Awaiting"
  shows "ginv ((gen_finally s)\<lparr>gen := Ended oc\<rparr>)"
  using ginv_parts(1,2)[OF g] ginv_parts(3)[OF g] na by (simp add: ginv_def)

lemma ginv_ended:
  assumes g: "ginv s" and na: "gen s \<noteq> Awaiting"
  shows "ginv (s\<lparr>gen := Ended oc\<rparr>)"
  using ginv_parts(1,2)[OF g] ginv_parts(3)[OF g] na by (simp add: ginv_def)

lemma ginv_consumerReturn: "ginv s \<Longrightarrow> ginv (consumerReturn s)"
  by (simp add: consumerReturn_def ginv_finally_ended ginv_ended)

lemma ginv_gstep: "ginv s \<Longrightarrow> ginv (gstep parse sg s)"
proof -
  assume g: "ginv s"
  show ?thesis
  proof (cases sg)
    case (Line l)
    with g show ?thesis by (simp add: gstep_def ginv_handleLine ginv_parts)
  next
    case Close
    with g show ?thesis by (simp add: gstep_def ginv_handleClose ginv_parts)
  next
    case (Exit code)
    with g show ?thesis by (simp add: gstep_def ginv_onExit ginv_parts Let_def)
  next
    case (ChildError e)
    with g show ?thesis by (simp add: gstep_def ginv_onError ginv_parts)
  next
    case (Interrupt r)
    with g show ?thesis by (simp add: gstep_def ginv_parts)
  next
    case (ExternalAbort r)
    with g show ?thesis by (simp add: gstep_def ginv_parts)
  next
    case (Elapse d)
    with g show ?thesis by (simp add: gstep_def ginv_parts)
  next
    case Pull
    have "ginv (pull s)" using g by (rule ginv_pull)
    then show ?thesis using Pull by (simp add: gstep_def ginv_parts)
  next
    case Return
    have "ginv (consumerReturn s)" using g by (rule ginv_consumerReturn)
    then show ?thesis using Return by (simp add: gstep_def ginv_parts)
  qed
qed

lemma ginv_grun: "ginv s \<Longrightarrow> ginv (grun parse sigs s)"
  unfolding grun_def by (induction sigs arbitrary: s) (simp_all add: ginv_gstep)

lemma ginv_initial: "runStreamedInternal prompt ro w = Inr s0 \<Longrightarrow> ginv s0"
  by (auto simp: runStreamedInternal_def ginv_def trace_def split: option.splits prod.splits)

lemma state_upd_run [simp]: "state (upd_run a f w) = state w"
  by (simp add: upd_run_def)

lemma heap_upd_run [simp]: "heap (upd_run a f w) = (heap w)(a := f (heap w a))"
  by (simp add: upd_run_def)

lemma clock_upd_run [simp]: "clock (upd_run a f w) = clock w"
  by (simp add: upd_run_def)

lemma listing_upd_run [simp]: "listing (upd_run a f w) = listing w"
  by (simp add: upd_run_def)

lemma allocated_upd_run [simp]: "allocated (upd_run a f w) = allocated w"
  by (simp add: upd_run_def)

lemma handle_upd_run [simp]: "handle_id (upd_run a f w) = handle_id w"
  by (simp add: upd_run_def)

lemma state_abortChild [simp]: "state (abortChild reason w) = state w"
  by (simp add: abortChild_def Let_def split: option.splits)

lemma state_interrupt [simp]: "state (interrupt reason w) = state w"
  by (simp add: interrupt_def)

lemma state_externalAbort [simp]: "state (externalAbort a reason w) = state w"
  by (simp add: externalAbort_def Let_def)

lemma state_fireSoftKill [simp]: "state (fireSoftKill a w) = state w"
  by (simp add: fireSoftKill_def)

lemma state_fireHardKill [simp]: "state (fireHardKill a w) = state w"
  by (simp add: fireHardKill_def)

lemma state_elapse [simp]: "state (elapse a d w) = state w"
  by (simp add: elapse_def)

lemma state_processExits [simp]: "state (processExits a code w) = state w"
  by (simp add: processExits_def)

lemma state_wstep [simp]: "state (wstep a sg w) = state w"
  by (cases sg) (simp_all add: wstep_def)

lemma state_cleanup: "state (cleanup a w) = (if currentRun (state w) = Some a then (state w)\<lparr>currentRun := None\<rparr> else state w)"
  by (simp add: cleanup_def Let_def)

lemma resume_kept_cleanup [simp]: "resume_kept r (cleanup a w) = resume_kept r w"
  by (simp add: resume_kept_def state_cleanup)














lemma aborted_kill [simp]: "running (kill t sg c) = running c"
  by (simp add: kill_def)

lemma keepsD: "keeps P f \<Longrightarrow> P (heap w b) \<Longrightarrow> P (heap (f w) b)"
  by (simp add: keeps_def)

lemma keeps_aborted_abortChild: "keeps aborted (abortChild r)"
  by (auto simp: keeps_def abortChild_def Let_def split: option.splits)

lemma keeps_aborted_interrupt: "keeps aborted (interrupt r)"
  by (auto simp: keeps_def interrupt_def abortChild_def Let_def split: option.splits)

lemma keeps_aborted_externalAbort: "keeps aborted (externalAbort a r)"
  unfolding keeps_def
proof (intro allI impI)
  fix w :: gworld and b assume a: "aborted (heap w b)"
  have 1: "aborted (heap (upd_run a (\<lambda>r. r\<lparr>externalLinked := False\<rparr>) w) b)"
    using a by auto
  have 2: "aborted (heap (upd_run a (\<lambda>r. r\<lparr>signalAborted := True\<rparr>) (upd_run a (\<lambda>r. r\<lparr>externalLinked := False\<rparr>) w)) b)"
    using a by auto
  show "aborted (heap (externalAbort a r w) b)"
    using a 1 keepsD[OF keeps_aborted_abortChild 2]
    by (simp add: externalAbort_def Let_def del: heap_upd_run)
qed

lemma aborted_softKillDue [simp]: "aborted (softKillDue now r) = aborted r"
  by (simp add: softKillDue_def split: option.splits timer.splits bool.splits)

lemma aborted_hardKillDue [simp]: "aborted (hardKillDue now r) = aborted r"
  by (simp add: hardKillDue_def split: option.splits timer.splits bool.splits)

lemma keeps_aborted_fireSoftKill: "keeps aborted (fireSoftKill a)"
  by (auto simp: keeps_def fireSoftKill_def)

lemma keeps_aborted_fireHardKill: "keeps aborted (fireHardKill a)"
  by (auto simp: keeps_def fireHardKill_def)

lemma keeps_aborted_elapse: "keeps aborted (elapse a d)"
  unfolding keeps_def elapse_def
  using keepsD[OF keeps_aborted_fireHardKill] keepsD[OF keeps_aborted_fireSoftKill]
  by simp

lemma keeps_aborted_processExits: "keeps aborted (processExits a c)"
  by (simp add: keeps_def processExits_def)

lemma keeps_aborted_cleanup: "keeps aborted (cleanup a)"
  by (simp add: keeps_def cleanup_def Let_def clearKillTimers_def)

lemma heap_capture [simp]: "heap (captureGeminiSessionMetadata p w) = heap w"
  by (simp add: captureGeminiSessionMetadata_def split: option.splits)

lemma heap_updateList [simp]: "heap (updateSessionMetadataFromList w) = heap w"
  by (simp add: updateSessionMetadataFromList_def Let_def)

lemma aborted_gen_finally: "aborted (activeOf s) \<Longrightarrow> aborted (activeOf (gen_finally s))"
  using keepsD[OF keeps_aborted_cleanup]
  by (simp add: gen_finally_def Let_def activeOf_def)

lemma aborted_receive: "aborted (activeOf s) \<Longrightarrow> aborted (activeOf (receive e s))"
  using aborted_gen_finally[of "s\<lparr>delivered := delivered s @ [e]\<rparr>"]
  by (cases e) (simp_all add: receive_def Let_def activeOf_def)

lemma activeOf_emit [simp]: "activeOf (emit es s) = activeOf s"
  by (simp add: activeOf_def)

lemma aborted_settle: "aborted (activeOf s) \<Longrightarrow> aborted (activeOf (settle s))"
  using aborted_receive[of "s\<lparr>inbox := tl (inbox s)\<rparr>"]
  by (auto simp: settle_def activeOf_def split: list.splits)

lemma events_of_append [simp]: "events_of (xs @ ys) = events_of xs @ events_of ys"
  by (induction xs rule: events_of.induct) simp_all

lemma events_of_map_Ev [simp]: "events_of (map Ev evs) = evs"
  by (induction evs) simp_all

lemma has_type_append [simp]: "has_type t (xs @ ys) = (has_type t xs \<or> has_type t ys)"
  by (simp add: has_type_def)

lemma trace_settle_emit:
  assumes i: "inbox s = []"
    and w: "if gen s = Awaiting then waiters s = 1 \<and> queue s = [] else waiters s = 0"
  shows "trace (settle (emit es s)) = trace s @ es"
proof (cases "gen s = Awaiting")
  case True
  show ?thesis
  proof (cases es)
    case Nil
    with i show ?thesis by simp
  next
    case (Cons e es')
    have em: "emit (e # es') s = s\<lparr>waiters := 0, inbox := [e], queue := es'\<rparr>"
      using True w i by (simp add: emit_one_waiter)
    show ?thesis
      unfolding Cons em using True w i by (simp add: settle_def trace_def)
  qed
next
  case False
  have em: "emit es s = s\<lparr>queue := queue s @ es\<rparr>"
    using False w by (simp add: emit_no_waiters)
  show ?thesis using i by (simp add: em trace_def)
qed

lemma cancel_emit:
  assumes g: "inbox s = []" "if gen s = Awaiting then waiters s = 1 \<and> queue s = [] else waiters s = 0"
    and c: "cancel_inv s"
    and es: "has_type T_cancelled (events_of es) \<longrightarrow> aborted (activeOf s)"
  shows "cancel_inv (settle (emit es s))"
  unfolding cancel_inv_def trace_settle_emit[OF g]
  using c es aborted_settle[of "emit es s"]
  by (auto simp: cancel_inv_def)

lemma normalize_no_cancelled2: "\<not> has_type T_cancelled (normalizeGeminiEvent ev)"
  by (simp add: normalizeGeminiEvent_def Let_def mkEvent_def has_type_def)

lemma ginv_w: "ginv s \<Longrightarrow> (if gen s = Awaiting then waiters s = 1 \<and> queue s = [] else waiters s = 0)"
  using ginv_parts(3)[of s] by (simp split: if_splits)

lemma cancel_handleLine:
  assumes g: "ginv s" and c: "cancel_inv s"
  shows "cancel_inv (settle (handleLine parse l s))"
proof (cases "finished s \<or> parse l = None")
  case True
  with g c show ?thesis by (auto simp: handleLine_def ginv_parts)
next
  case False
  then obtain ev where ev: "parse l = Some ev" and nf: "\<not> finished s" by auto
  let ?s = "s\<lparr>world := captureGeminiSessionMetadata (Some ev) (world s)\<rparr>"
  have "cancel_inv (settle (emit (map Ev (normalizeGeminiEvent (Some ev))) ?s))"
  proof (rule cancel_emit)
    show "inbox ?s = []" using g by (simp add: ginv_parts)
    show "if gen ?s = Awaiting then waiters ?s = 1 \<and> queue ?s = [] else waiters ?s = 0"
      using ginv_w[OF g] by simp
    show "cancel_inv ?s" using c by (simp add: cancel_inv_def activeOf_def)
    show "has_type T_cancelled (events_of (map Ev (normalizeGeminiEvent (Some ev)))) \<longrightarrow> aborted (activeOf ?s)"
      by (simp add: normalize_no_cancelled2)
  qed
  then show ?thesis using ev nf by (simp add: handleLine_def)
qed

lemma cancel_finish:
  assumes g: "ginv s" and c: "cancel_inv s" and h: "heap w = heap (world s)"
    and es: "es = [DONE] \<or> es = [Failure x, DONE] \<or> (es = cancelledPair a \<and> aborted (activeOf s))"
  shows "cancel_inv (settle (emit es (s\<lparr>finished := True, world := w\<rparr>)))"
proof (rule cancel_emit)
  let ?s = "s\<lparr>finished := True, world := w\<rparr>"
  show "inbox ?s = []" using g by (simp add: ginv_parts)
  show "if gen ?s = Awaiting then waiters ?s = 1 \<and> queue ?s = [] else waiters ?s = 0"
    using ginv_w[OF g] by simp
  show "cancel_inv ?s" using c h by (simp add: cancel_inv_def activeOf_def)
  show "has_type T_cancelled (events_of es) \<longrightarrow> aborted (activeOf ?s)"
    using es h by (auto simp: activeOf_def has_type_def)
qed

lemma cancel_handleClose:
  assumes g: "ginv s" and c: "cancel_inv s"
  shows "cancel_inv (settle (handleClose s))"
proof (cases "finished s \<or> \<not> aborted (activeOf s)")
  case True
  with g c show ?thesis by (auto simp: handleClose_def ginv_parts)
next
  case False
  have "cancel_inv (settle (emit (cancelledPair (activeOf s)) (s\<lparr>finished := True, world := world s\<rparr>)))"
    using g c False by (intro cancel_finish) auto
  with False show ?thesis by (simp add: handleClose_def activeOf_def)
qed

lemma cancel_onExit:
  assumes g: "ginv s" and c: "cancel_inv s"
  shows "cancel_inv (settle (onExit code s))"
proof (cases "finished s")
  case True
  with g c show ?thesis by (simp add: onExit_def ginv_parts)
next
  case False
  have fin: "\<And>es w. heap w = heap (world s) \<Longrightarrow>
               es = [DONE] \<or> es = [Failure (new_Error (''gemini exited with code '' @ code_str code)), DONE]
                 \<or> (es = cancelledPair (activeOf s) \<and> aborted (activeOf s)) \<Longrightarrow>
               cancel_inv (settle (emit es (s\<lparr>finished := True, world := w\<rparr>)))"
    using g c by (intro cancel_finish) auto
  show ?thesis
    using False fin[of "world s" "[DONE]"] fin[of "updateSessionMetadataFromList (world s)" "[DONE]"]
      fin[of "world s" "cancelledPair (activeOf s)"]
      fin[of "world s" "[Failure (new_Error (''gemini exited with code '' @ code_str code)), DONE]"]
    by (simp add: onExit_def Let_def activeOf_def)
qed

lemma cancel_onError:
  assumes g: "ginv s" and c: "cancel_inv s"
  shows "cancel_inv (settle (onError e s))"
proof (cases "finished s")
  case True
  with g c show ?thesis by (simp add: onError_def ginv_parts)
next
  case False
  have "cancel_inv (settle (emit [Failure e, DONE] (s\<lparr>finished := True, world := world s\<rparr>)))"
    using g c by (intro cancel_finish) auto
  with False show ?thesis by (simp add: onError_def)
qed

lemma trace_receive_queue: "inbox s = [] \<Longrightarrow> queue s = e # q \<Longrightarrow> trace (receive e (s\<lparr>queue := q\<rparr>)) = trace s"
  by (simp add: trace_def)

lemma cancel_pull:
  assumes g: "ginv s" and c: "cancel_inv s"
  shows "cancel_inv (pull s)"
proof (cases "gen s = SuspendedStart \<or> gen s = SuspendedYield")
  case False
  with c show ?thesis by (simp add: pull_def)
next
  case sus: True
  show ?thesis
  proof (cases "queue s")
    case (Cons e q)
    have "cancel_inv (receive e (s\<lparr>queue := q\<rparr>))"
      unfolding cancel_inv_def trace_receive_queue[OF ginv_parts(1)[OF g] Cons]
      using c aborted_receive[of "s\<lparr>queue := q\<rparr>" e]
      by (simp add: cancel_inv_def activeOf_def)
    with sus Cons show ?thesis by (simp add: pull_def)
  next
    case Nil
    have dl: "list_all is_Ev (delivered s)"
      using ginv_parts(4)[OF g] sus by auto
    have "trace s = delivered s"
      using Nil ginv_parts(1)[OF g] by (simp add: trace_def)
    with dl ginv_parts(2)[OF g] have nf: "\<not> finished s"
      using shape_True_not_all_Ev[of "delivered s"] by (cases "finished s") auto
    show ?thesis
      using sus Nil nf c by (auto simp: pull_def cancel_inv_def trace_def activeOf_def)
  qed
qed

lemma cancel_world:
  "cancel_inv s \<Longrightarrow> keeps aborted f \<Longrightarrow> cancel_inv (s\<lparr>world := f (world s)\<rparr>)"
  by (auto simp: cancel_inv_def activeOf_def dest: keepsD)

lemma cancel_consumerReturn: "cancel_inv s \<Longrightarrow> cancel_inv (consumerReturn s)"
  using aborted_gen_finally[of s]
  by (auto simp: consumerReturn_def cancel_inv_def activeOf_def)

lemma cancel_listeners [simp]:
  "cancel_inv (s\<lparr>closeListener := b\<rparr>) = cancel_inv s"
  "cancel_inv (s\<lparr>exitListener := b\<rparr>) = cancel_inv s"
  "cancel_inv (s\<lparr>errorListener := b\<rparr>) = cancel_inv s"
  by (simp_all add: cancel_inv_def activeOf_def)

lemma cancel_gstep:
  assumes g: "ginv s" and c: "cancel_inv s"
  shows "cancel_inv (gstep parse sg s)"
proof (cases sg)
  case (Line l)
  with g c show ?thesis by (simp add: gstep_def cancel_handleLine ginv_parts)
next
  case Close
  with g c show ?thesis by (simp add: gstep_def cancel_handleClose ginv_parts)
next
  case (Exit code)
  have "cancel_inv (s\<lparr>world := processExits (rid s) code (world s)\<rparr>)"
    using c keeps_aborted_processExits by (rule cancel_world)
  with g Exit c show ?thesis by (simp add: gstep_def cancel_onExit ginv_parts Let_def)
next
  case (ChildError e)
  with g c show ?thesis by (simp add: gstep_def cancel_onError ginv_parts)
next
  case (Interrupt r)
  have "cancel_inv (s\<lparr>world := interrupt r (world s)\<rparr>)"
    using c keeps_aborted_interrupt by (rule cancel_world)
  with g Interrupt show ?thesis by (simp add: gstep_def ginv_parts)
next
  case (ExternalAbort r)
  have "cancel_inv (s\<lparr>world := externalAbort (rid s) r (world s)\<rparr>)"
    using c keeps_aborted_externalAbort by (rule cancel_world)
  with g ExternalAbort show ?thesis by (simp add: gstep_def ginv_parts)
next
  case (Elapse d)
  have "cancel_inv (s\<lparr>world := elapse (rid s) d (world s)\<rparr>)"
    using c keeps_aborted_elapse by (rule cancel_world)
  with g Elapse show ?thesis by (simp add: gstep_def ginv_parts)
next
  case Pull
  have "ginv (pull s)" using g by (rule ginv_pull)
  moreover have "cancel_inv (pull s)" using g c by (rule cancel_pull)
  ultimately show ?thesis using Pull by (simp add: gstep_def ginv_parts)
next
  case Return
  have "ginv (consumerReturn s)" using g by (rule ginv_consumerReturn)
  moreover have "cancel_inv (consumerReturn s)" using c by (rule cancel_consumerReturn)
  ultimately show ?thesis using Return by (simp add: gstep_def ginv_parts)
qed

lemma cancel_grun: "ginv s \<Longrightarrow> cancel_inv s \<Longrightarrow> cancel_inv (grun parse sigs s)"
  unfolding grun_def
  by (induction sigs arbitrary: s) (simp_all add: ginv_gstep cancel_gstep)

lemma cancel_initial: "runStreamedInternal prompt ro w = Inr s0 \<Longrightarrow> cancel_inv s0"
  by (auto simp: runStreamedInternal_def cancel_inv_def trace_def has_type_def split: option.splits prod.splits)










subsection \<open>Session resume resolution\<close>



subsection \<open>Interrupting an idle or already aborted thread\<close>

lemma abortChild_noop:
  "currentRun (state w) = None \<or> (\<exists>a. currentRun (state w) = Some a \<and> aborted (heap w a)) \<Longrightarrow>
   abortChild reason w = w"
  by (auto simp: abortChild_def Let_def)

lemma abortCurrentRun_noop:
  "consistent_c w \<Longrightarrow>
   currentRun_c (cstate w) = None \<or> (\<exists>a. currentRun_c (cstate w) = Some a \<and> aborted_c (cheap w a)) \<Longrightarrow>
   abortCurrentRun reason w = w"
  by (auto simp: abortCurrentRun_def consistent_c_def Let_def)

lemma consistent_abortCurrentRun: "consistent_c w \<Longrightarrow> consistent_c (abortCurrentRun reason w)"
  by (auto simp: abortCurrentRun_def consistent_c_def Let_def split: option.splits)

lemma consistent_interrupt_c: "consistent_c w \<Longrightarrow> consistent_c (interrupt_c reason w)"
  by (simp add: interrupt_c_def consistent_abortCurrentRun)

lemma consistent_unlink:
  "consistent_c w \<Longrightarrow> consistent_c (w\<lparr>cheap := (cheap w)(a := (cheap w a)\<lparr>externalLinked_c := False\<rparr>)\<rparr>)"
  by (auto simp: consistent_c_def split: option.splits)

lemma consistent_externalAbort_c: "consistent_c w \<Longrightarrow> consistent_c (externalAbort_c a reason w)"
  by (simp add: externalAbort_c_def consistent_abortCurrentRun consistent_unlink)

lemma consistent_beginRun_c: "consistent_c (snd (beginRun_c ro w))"
  by (simp add: beginRun_c_def consistent_c_def Let_def)

lemma consistent_sdk: "consistent_c (w\<lparr>sdkCalls := n\<rparr>) = consistent_c w"
  by (simp add: consistent_c_def split: option.splits)

lemma consistent_slot_free:
  "consistent_c w \<Longrightarrow> consistent_c (w\<lparr>cstate := (cstate w)\<lparr>currentRun_c := None\<rparr>\<rparr>)"
  by (simp add: consistent_c_def)

lemma consistent_finally_c: "consistent_c (cw s) \<Longrightarrow> consistent_c (cw (finally_c s))"
proof -
  assume c: "consistent_c (cw s)"
  define w1 where "w1 = (if \<not> completed s \<and> \<not> signalAborted_c (cheap (cw s) (crid s)) \<and> \<not> threw s
                then abortCurrentRun (Some ''Stream closed'') (cw s) else cw s)"
  have c1: "consistent_c w1"
    using c by (simp add: w1_def consistent_abortCurrentRun)
  define w2 where "w2 = w1\<lparr>cheap := (cheap w1)(crid s := (cheap w1 (crid s))\<lparr>externalLinked_c := False\<rparr>)\<rparr>"
  have c2: "consistent_c w2"
    using c1 unfolding w2_def by (rule consistent_unlink)
  have "cw (finally_c s) = (if currentRun_c (cstate w2) = Some (crid s)
                then w2\<lparr>cstate := (cstate w2)\<lparr>currentRun_c := None\<rparr>\<rparr> else w2)"
    by (simp add: finally_c_def Let_def w1_def w2_def)
  then show ?thesis using c2 by (simp add: consistent_slot_free)
qed

lemma cw_yieldNext [simp]: "cw (yieldNext s) = cw s"
  by (simp add: yieldNext_def split: list.splits)

lemma consistent_catch_c: "consistent_c (cw s) \<Longrightarrow> consistent_c (cw (catch_c err s))"
  using consistent_finally_c[of "s\<lparr>threw := True, caught := Some err\<rparr>"]
  by (simp add: catch_c_def Let_def)

lemma consistent_id:
  "consistent_c w \<Longrightarrow> consistent_c (w\<lparr>cstate := (cstate w)\<lparr>id_c := t\<rparr>, chandle_id := t\<rparr>)"
  by (simp add: consistent_c_def split: option.splits)

lemma consistent_cstep: "consistent_c (cw s) \<Longrightarrow> consistent_c (cw (cstep sg s))"
proof (cases sg)
  case CPull
  assume c: "consistent_c (cw s)"
  show ?thesis
    using c consistent_finally_c[of s] CPull
    by (cases "cphase s") (simp_all add: cstep_def consistent_sdk)
next
  case CReturn
  assume c: "consistent_c (cw s)"
  show ?thesis
    using c consistent_finally_c[of s] CReturn
    by (cases "cphase s") (simp_all add: cstep_def)
next
  case (Started tid)
  assume c: "consistent_c (cw s)"
  then show ?thesis using Started by (simp add: cstep_def consistent_id)
next
  case (BEvent ev)
  assume c: "consistent_c (cw s)"
  then show ?thesis using BEvent by (simp add: cstep_def)
next
  case BEnd
  assume c: "consistent_c (cw s)"
  then show ?thesis
    using BEnd consistent_finally_c[of "s\<lparr>completed := True\<rparr>"] by (simp add: cstep_def)
next
  case (BRaise err)
  assume c: "consistent_c (cw s)"
  then show ?thesis using BRaise by (simp add: cstep_def consistent_catch_c)
next
  case (CInterrupt r)
  assume c: "consistent_c (cw s)"
  then show ?thesis using CInterrupt by (simp add: cstep_def consistent_interrupt_c)
next
  case (CExternalAbort r)
  assume c: "consistent_c (cw s)"
  then show ?thesis using CExternalAbort by (simp add: cstep_def consistent_externalAbort_c)
qed

lemma consistent_crun: "consistent_c (cw s) \<Longrightarrow> consistent_c (cw (crun sigs s))"
  unfolding crun_def by (induction sigs arbitrary: s) (simp_all add: consistent_cstep)

lemma consistent_runStreamedInternal_c:
  "runStreamedInternal_c ro w = Inr s0 \<Longrightarrow> consistent_c (cw s0)"
  using consistent_beginRun_c[of ro w]
  by (auto simp: runStreamedInternal_c_def split: option.splits prod.splits)

lemma consistent_startThread_c: "consistent_c (startThread_c d ov)"
  by (simp add: startThread_c_def createThreadHandle_c_def consistent_c_def Let_def)

lemma consistent_resumeThread_c: "consistent_c (resumeThread_c d tid ov)"
  by (simp add: resumeThread_c_def createThreadHandle_c_def consistent_c_def Let_def)

text \<open>
  Claim C10. On a gemini thread with no run in flight, or whose current run is already
  aborted, \<open>interrupt\<close> returns the world as it was: no signal is logged, no timer is
  set, and the session id, the resume token and the current-run slot are the same;
  the operation has no failing branch. The same holds for \<open>interrupt\<close> on a codex thread,
  where the adapter tests the abort signal of the run's controller, which agrees with
  the run's \<open>aborted\<close> flag in every state the adapter reaches (\<open>consistent_c\<close>: it holds
  for a started or resumed thread and every streamed run keeps it).
\<close>

theorem C10_interrupt_is_noop:
  "((currentRun (state w) = None \<or> (\<exists>a. currentRun (state w) = Some a \<and> aborted (heap w a)))
      \<longrightarrow> interrupt reason w = w)
   \<and> ((consistent_c v \<and>
        (currentRun_c (cstate v) = None \<or> (\<exists>a. currentRun_c (cstate v) = Some a \<and> aborted_c (cheap v a))))
      \<longrightarrow> interrupt_c reason v = v)
   \<and> consistent_c (startThread_c d ov) \<and> consistent_c (resumeThread_c d tid ov)
   \<and> (consistent_c v \<and> runStreamedInternal_c ro v = Inr s0 \<longrightarrow> consistent_c (cw (crun sigs s0)))"
  by (auto simp: interrupt_def interrupt_c_def abortChild_noop abortCurrentRun_noop
        consistent_startThread_c consistent_resumeThread_c
        intro: consistent_crun consistent_runStreamedInternal_c)

theorem C10_interrupt_is_noop_witness:
  "interrupt (Some ''again'')
     (interrupt (Some ''stop'') (snd (spawnGeminiProcess ''hello'' stream_json plainRun (freshThread noOpts))))
   = interrupt (Some ''stop'') (snd (spawnGeminiProcess ''hello'' stream_json plainRun (freshThread noOpts)))
   \<and> interrupt None (freshThread noOpts) = freshThread noOpts
   \<and> interrupt_c (Some ''again'')
       (interrupt_c (Some ''stop'') (snd (beginRun_c plainRun (startThread_c noOpts noOpts))))
     = interrupt_c (Some ''stop'') (snd (beginRun_c plainRun (startThread_c noOpts noOpts)))
   \<and> interrupt_c None (startThread_c noOpts noOpts) = startThread_c noOpts noOpts"
proof -
  let ?w = "interrupt (Some ''stop'') (snd (spawnGeminiProcess ''hello'' stream_json plainRun (freshThread noOpts)))"
  let ?v = "interrupt_c (Some ''stop'') (snd (beginRun_c plainRun (startThread_c noOpts noOpts)))"
  have w: "currentRun (state ?w) = Some 0 \<and> aborted (heap ?w 0)"
    by (simp add: interrupt_def abortChild_def spawnGeminiProcess_def Let_def freshThread_def
          createThreadHandle_def startThread_def)
  have v: "currentRun_c (cstate ?v) = Some 0 \<and> aborted_c (cheap ?v 0)"
    by (simp add: interrupt_c_def abortCurrentRun_def beginRun_c_def Let_def startThread_c_def
          createThreadHandle_c_def)
  have cv: "consistent_c ?v"
    by (simp add: consistent_interrupt_c consistent_beginRun_c)
  have w0: "currentRun (state (freshThread noOpts)) = None"
    by (simp add: freshThread_def createThreadHandle_def startThread_def Let_def)
  have v0: "currentRun_c (cstate (startThread_c noOpts noOpts)) = None"
    by (simp add: startThread_c_def createThreadHandle_c_def Let_def)
  show ?thesis
    using C10_interrupt_is_noop[where w = ?w and v = ?v and reason = "Some ''again''",
              THEN conjunct1]
      C10_interrupt_is_noop[where w = ?w and v = ?v and reason = "Some ''again''",
              THEN conjunct2, THEN conjunct1]
      C10_interrupt_is_noop[where w = "freshThread noOpts" and v = "startThread_c noOpts noOpts" and reason = None,
              THEN conjunct1]
      C10_interrupt_is_noop[where w = "freshThread noOpts" and v = "startThread_c noOpts noOpts" and reason = None,
              THEN conjunct2, THEN conjunct1]
      w v cv w0 v0 consistent_startThread_c[of noOpts noOpts]
    by simp
qed

subsection \<open>A second run on a busy thread\<close>

lemma busy_after_start:
  "runStreamedInternal prompt ro w = Inr s \<Longrightarrow> currentRun (state (world s)) = Some (rid s)"
  by (auto simp: runStreamedInternal_def spawnGeminiProcess_def Let_def split: option.splits)

lemma busy_after_start_c:
  "runStreamedInternal_c ro v = Inr s \<Longrightarrow> currentRun_c (cstate (cw s)) = Some (crid s)"
  by (auto simp: runStreamedInternal_c_def beginRun_c_def Let_def split: option.splits)

text \<open>
  On a gemini or a codex thread whose current-run slot is occupied, \<open>run\<close> and
  \<open>runStreamed\<close> fail at once with the adapter's error: no process is spawned (the
  world, with its count of allocated runs, is returned as it was), no SDK call is made,
  and nothing is queued. A streamed run that has started occupies the slot, so a second
  call is rejected.
\<close>

lemma busy_thread_rejects:
  "(currentRun (state w) \<noteq> None \<longrightarrow>
      runInternal_start prompt ro w
        = Inl (new_Error ''Gemini adapter only supports one in-flight run per thread.'')
      \<and> runStreamedInternal prompt ro w
        = Inl (new_Error ''Gemini adapter only supports one in-flight run per thread.'')
      \<and> runInternal parse prompt ro sigs oc w
        = (Inl (new_Error ''Gemini adapter only supports one in-flight run per thread.''), w))
   \<and> (runStreamedInternal prompt ro w = Inr s \<longrightarrow>
        runStreamedInternal prompt' ro' (world s)
          = Inl (new_Error ''Gemini adapter only supports one in-flight run per thread.''))
   \<and> (currentRun_c (cstate v) \<noteq> None \<longrightarrow>
      runInternal_start_c ro v
        = Inl (new_Error ''Codex adapter only supports one in-flight run per thread.'')
      \<and> runStreamedInternal_c ro v
        = Inl (new_Error ''Codex adapter only supports one in-flight run per thread.''))
   \<and> (runStreamedInternal_c ro v = Inr t \<longrightarrow>
        runStreamedInternal_c ro' (cw t)
          = Inl (new_Error ''Codex adapter only supports one in-flight run per thread.''))"
proof (intro conjI impI)
  assume "currentRun (state w) \<noteq> None"
  then show "runInternal_start prompt ro w
        = Inl (new_Error ''Gemini adapter only supports one in-flight run per thread.'')"
    and "runStreamedInternal prompt ro w
        = Inl (new_Error ''Gemini adapter only supports one in-flight run per thread.'')"
    and "runInternal parse prompt ro sigs oc w
        = (Inl (new_Error ''Gemini adapter only supports one in-flight run per thread.''), w)"
    by (auto simp: runInternal_start_def runStreamedInternal_def runInternal_def assertIdle_def)
next
  assume "runStreamedInternal prompt ro w = Inr s"
  then have "currentRun (state (world s)) = Some (rid s)" by (rule busy_after_start)
  then show "runStreamedInternal prompt' ro' (world s)
          = Inl (new_Error ''Gemini adapter only supports one in-flight run per thread.'')"
    by (simp add: runStreamedInternal_def assertIdle_def)
next
  assume "currentRun_c (cstate v) \<noteq> None"
  then show "runInternal_start_c ro v
        = Inl (new_Error ''Codex adapter only supports one in-flight run per thread.'')"
    and "runStreamedInternal_c ro v
        = Inl (new_Error ''Codex adapter only supports one in-flight run per thread.'')"
    by (auto simp: runInternal_start_c_def runStreamedInternal_c_def assertIdle_c_def)
next
  assume "runStreamedInternal_c ro v = Inr t"
  then have "currentRun_c (cstate (cw t)) = Some (crid t)" by (rule busy_after_start_c)
  then show "runStreamedInternal_c ro' (cw t)
          = Inl (new_Error ''Codex adapter only supports one in-flight run per thread.'')"
    by (simp add: runStreamedInternal_c_def assertIdle_c_def)
qed

text \<open>
  Claim C4 at the claude adapter: \<open>run\<close> and \<open>runStreamed\<close> have no idle check. On a
  thread whose first run is still in flight a second call does not fail: it calls the
  SDK's \<open>query\<close> again, and two runs are in flight on the one handle.
\<close>

theorem C4_claude_starts_second_run:
  "run_begin_k (startThread_k noOpts noOpts ''uuid-1'')
     = Inr ((startThread_k noOpts noOpts ''uuid-1'')\<lparr>queries := 1, inFlight := 1\<rparr>)
   \<and> run_begin_k ((startThread_k noOpts noOpts ''uuid-1'')\<lparr>queries := 1, inFlight := 1\<rparr>)
     = Inr ((startThread_k noOpts noOpts ''uuid-1'')\<lparr>queries := 2, inFlight := 2\<rparr>)"
  by (simp add: run_begin_k_def startThread_k_def Let_def)

subsection \<open>Non-streamed gemini runs whose output is not JSON\<close>

lemma not_aborted_fire:
  "\<not> aborted (heap w b) \<Longrightarrow> \<not> aborted (heap (fireSoftKill a w) b)"
  "\<not> aborted (heap w b) \<Longrightarrow> \<not> aborted (heap (fireHardKill a w) b)"
  by (auto simp: fireSoftKill_def fireHardKill_def)

lemma not_aborted_wstep:
  "\<not> is_abort sg \<Longrightarrow> \<not> aborted (heap w b) \<Longrightarrow> \<not> aborted (heap (wstep a sg w) b)"
  by (cases sg) (simp_all add: wstep_def elapse_def not_aborted_fire)

lemma not_aborted_wsteps:
  "\<not> list_ex is_abort sigs \<Longrightarrow> \<not> aborted (heap w b) \<Longrightarrow>
   \<not> aborted (heap (foldl (\<lambda>w sg. wstep a sg w) w sigs) b)"
  by (induction sigs arbitrary: w) (simp_all add: not_aborted_wstep)

lemma structuredOf_string:
  "structuredOf parse ro (Some (JStr s)) =
     Inr (if truthy (outputSchema ro) then extractJsonPayload parse (Some s) else None)"
  by (simp add: structuredOf_def)

lemma runInternal_body_not_json:
  assumes p: "parse out = None" and na: "\<not> aborted (heap w a)"
  shows "\<exists>res. fst (runInternal_body parse ro a (Exited out err (Some 0)) w) = Inr res
           \<and> rtext res = Some (JStr out) \<and> raw res = Some (JObj [(''response'', JStr out)])"
proof -
  have pj: "parseGeminiJson parse out = JObj [(''response'', JStr out)]"
    using p by (simp add: parseGeminiJson_def)
  have na': "\<not> aborted (heap (processExits a (Some 0) w) a)"
    using na by (simp add: processExits_def)
  show ?thesis
    using na' unfolding runInternal_body_def
    by (simp add: pj Let_def structuredOf_string)
qed

lemma fst_finish: "fst (runInternal_finish parse ro a oc w) = fst (runInternal_body parse ro a oc w)"
  by (simp add: runInternal_finish_def case_prod_beta)

text \<open>
  Claim C9, amended. A non-streamed gemini run on an idle thread that is not aborted
  while it waits, whose process exits with status 0 and whose whole stdout is not
  valid JSON, resolves: its text is the raw stdout and its raw payload is
  \<open>{response: stdout}\<close>.
\<close>

theorem C9_stdout_not_json_resolves:
  "parse out = None \<and> currentRun (state w) = None \<and> \<not> list_ex is_abort sigs \<longrightarrow>
     (\<exists>res. fst (runInternal parse prompt ro sigs (Exited out err (Some 0)) w) = Inr res
        \<and> rtext res = Some (JStr out)
        \<and> raw res = Some (JObj [(''response'', JStr out)]))"
proof
  assume a: "parse out = None \<and> currentRun (state w) = None \<and> \<not> list_ex is_abort sigs"
  obtain b w1 where sp: "spawnGeminiProcess prompt json_format ro w = (b, w1)"
    by (cases "spawnGeminiProcess prompt json_format ro w")
  have st: "runInternal_start prompt ro w = Inr (b, w1)"
    using a sp by (simp add: runInternal_start_def assertIdle_def)
  have "\<not> aborted (heap w1 b)"
    using sp by (auto simp: spawnGeminiProcess_def Let_def)
  then have "\<not> aborted (heap (foldl (\<lambda>w sg. wstep b sg w) w1 sigs) b)"
    using a by (simp add: not_aborted_wsteps)
  then show "\<exists>res. fst (runInternal parse prompt ro sigs (Exited out err (Some 0)) w) = Inr res
        \<and> rtext res = Some (JStr out)
        \<and> raw res = Some (JObj [(''response'', JStr out)])"
    using a runInternal_body_not_json[of parse out _ b ro err]
    by (simp add: runInternal_def st fst_finish)
qed

theorem C9_stdout_not_json_resolves_witness:
  "\<exists>res. fst (runInternal sample_parse ''hello'' plainRun [Elapse 10]
                 (Exited ''not json'' [] (Some 0)) (freshThread noOpts)) = Inr res
      \<and> rtext res = Some (JStr ''not json'')
      \<and> raw res = Some (JObj [(''response'', JStr ''not json'')])"
proof -
  have 1: "sample_parse ''not json'' = None" by (simp add: sample_parse_def)
  have 2: "currentRun (state (freshThread noOpts)) = None"
    by (simp add: freshThread_def createThreadHandle_def startThread_def Let_def)
  have 3: "\<not> list_ex is_abort [Elapse 10]" by simp
  show ?thesis
    using C9_stdout_not_json_resolves[of sample_parse "''not json''" "freshThread noOpts"
            "[Elapse 10]" "''hello''" plainRun "[]"] 1 2 3
    by blast
qed

theorem C9_aborted_run_counterexample:
  "sample_parse ''not json'' = None
   \<and> fst (runInternal sample_parse ''hello'' plainRun [Interrupt (Some ''stop'')]
            (Exited ''not json'' [] (Some 0)) (freshThread noOpts))
     = Inl (JsError ''AbortError'' (Some ''interrupted'') ''stop'')"
  by (simp add: sample_parse_def runInternal_def runInternal_start_def assertIdle_def
        freshThread_def createThreadHandle_def startThread_def Let_def spawnGeminiProcess_def
        wstep_def interrupt_def abortChild_def fst_finish runInternal_body_def processExits_def
        createAbortError_def upd_run_def end_stdin_def)

subsection \<open>Structured output extraction\<close>

lemma parse_span_Nil [simp]: "parse_span parse [] = None"
  by (simp add: parse_span_def)

lemma trim_Nil [simp]: "trim [] = []"
  by (simp add: trim_def)


lemma runInternal_body_string_response:
  assumes na: "\<not> aborted (heap w a)" and p: "parse out = Some (JObj kvs)"
    and r: "map_of kvs ''response'' = Some (JStr s)"
  shows "\<exists>res. fst (runInternal_body parse ro a (Exited out err (Some 0)) w) = Inr res
           \<and> rjson res = coalesce (if truthy (outputSchema ro)
                                    then extractJsonPayload parse (Some s) else None)
                                   (map_of kvs ''json'')"
proof -
  have pj: "parseGeminiJson parse out = JObj kvs"
    using p by (simp add: parseGeminiJson_def)
  have na': "\<not> aborted (heap (processExits a (Some 0) w) a)"
    using na by (simp add: processExits_def)
  show ?thesis
    using na' r unfolding runInternal_body_def
    by (simp add: pj Let_def structuredOf_string)
qed


lemma structuredOf_not_string:
  assumes "truthy (outputSchema ro)" and "truthy t" and "\<forall>s. t \<noteq> Some (JStr s)"
  shows "structuredOf parse ro t = Inl (typeError ''text.match is not a function'')"
proof (cases t)
  case None
  with assms show ?thesis by simp
next
  case (Some v)
  with assms show ?thesis by (cases v) (simp_all add: structuredOf_def)
qed

lemma runInternal_body_not_string_text:
  assumes na: "\<not> aborted (heap w a)" and nn: "parseGeminiJson parse out \<noteq> JNull"
    and sc: "truthy (outputSchema ro)"
    and t: "coalesce (getp (Some (parseGeminiJson parse out)) ''response'')
              (coalesce (getp (Some (parseGeminiJson parse out)) ''text'') (Some (JStr out))) = t"
    and tt: "truthy t" and ns: "\<forall>s. t \<noteq> Some (JStr s)"
  shows "fst (runInternal_body parse ro a (Exited out err (Some 0)) w)
         = Inl (typeError ''text.match is not a function'')"
proof -
  have na': "\<not> aborted (heap (processExits a (Some 0) w) a)"
    using na by (simp add: processExits_def)
  have so: "structuredOf parse ro t = Inl (typeError ''text.match is not a function'')"
    using sc tt ns by (rule structuredOf_not_string)
  show ?thesis
    using na' nn unfolding runInternal_body_def
    by (simp add: Let_def t so)
qed




subsection \<open>Escalating termination\<close>

lemma clock_elapse [simp]: "clock (elapse a d w) = clock w + d"
  by (simp add: elapse_def fireSoftKill_def fireHardKill_def)

lemma heap_elapse:
  "heap (elapse a d w) a = hardKillDue (clock w + d) (softKillDue (clock w + d) (heap w a))"
  by (simp add: elapse_def fireSoftKill_def fireHardKill_def)

lemma clock_abortChild [simp]: "clock (abortChild r w) = clock w"
  by (simp add: abortChild_def Let_def split: option.splits)

lemma heap_abortChild_live:
  assumes "currentRun (state w) = Some a" "\<not> aborted (heap w a)"
    "softKillTimer (heap w a) = None" "hardKillTimer (heap w a) = None"
  shows "heap (abortChild reason w) a =
     (heap w a)\<lparr>aborted := True,
                abortReason := Some (case reason of Some r \<Rightarrow> r | None \<Rightarrow> ''Interrupted''),
                child := end_stdin (child (heap w a)),
                softKillTimer := Some (Timer (clock w + 250) True),
                hardKillTimer := Some (Timer (clock w + 1500) True)\<rparr>"
  using assms
  by (simp add: abortChild_def Let_def SOFT_KILL_DELAY_MS_def HARD_KILL_DELAY_MS_def)

lemma spawn_fresh:
  "allocated w = a \<Longrightarrow>
   fst (spawnGeminiProcess prompt fmt ro w) = a
   \<and> currentRun (state (snd (spawnGeminiProcess prompt fmt ro w))) = Some a
   \<and> clock (snd (spawnGeminiProcess prompt fmt ro w)) = clock w
   \<and> heap (snd (spawnGeminiProcess prompt fmt ro w)) a =
       \<lparr> child = \<lparr> args = buildGeminiArgs (opts (state w)) prompt fmt (resolveResumeTarget (state w)),
                   running = True, killed = False, exitCode = None, received = [],
                   stdinOpen = None, streamsDestroyed = False \<rparr>,
         signalAborted = False, externalLinked = hasSignal ro, aborted = False,
         abortReason = None, softKillTimer = None, hardKillTimer = None \<rparr>"
  by (simp add: spawnGeminiProcess_def Let_def)

lemma freshThread_facts [simp]:
  "allocated (freshThread ov) = 0" "clock (freshThread ov) = 0"
  "currentRun (state (freshThread ov)) = None"
  by (simp_all add: freshThread_def createThreadHandle_def startThread_def Let_def)

text \<open>
  Claim C6 at a child that ignores \<open>SIGTERM\<close>: the run is aborted at time 0; at 250 ms the
  soft timer sends \<open>SIGTERM\<close> and Node sets \<open>child.killed\<close>; at 1500 ms the hard timer
  finds \<open>child.killed\<close> set and sends nothing, although the process is still running;
  no \<open>SIGKILL\<close> follows later either.
\<close>

theorem C6_hard_kill_is_skipped:
  "(let w0 = snd (spawnGeminiProcess ''hello'' stream_json plainRun (freshThread noOpts));
        w1 = interrupt (Some ''stop'') w0;
        w2 = elapse 0 250 w1;
        w3 = elapse 0 1250 w2;
        w4 = elapse 0 10000 w3
    in softKillTimer (heap w1 0) = Some (Timer 250 True)
       \<and> hardKillTimer (heap w1 0) = Some (Timer 1500 True)
       \<and> stdinOpen (child (heap w1 0)) = None
       \<and> received (child (heap w2 0)) = [(250, SIGTERM)]
       \<and> killed (child (heap w2 0))
       \<and> clock w3 = 1500
       \<and> running (child (heap w3 0))
       \<and> hardKillTimer (heap w3 0) = Some (Timer 1500 False)
       \<and> received (child (heap w3 0)) = [(250, SIGTERM)]
       \<and> running (child (heap w4 0))
       \<and> received (child (heap w4 0)) = [(250, SIGTERM)])"
proof -
  define w0 where "w0 = snd (spawnGeminiProcess ''hello'' stream_json plainRun (freshThread noOpts))"
  define w1 where "w1 = interrupt (Some ''stop'') w0"
  define w2 where "w2 = elapse 0 250 w1"
  define w3 where "w3 = elapse 0 1250 w2"
  define w4 where "w4 = elapse 0 10000 w3"
  define c0 where "c0 = \<lparr> args = buildGeminiArgs (opts (state (freshThread noOpts))) ''hello'' stream_json
                              (resolveResumeTarget (state (freshThread noOpts))),
                   running = True, killed = False, exitCode = None, received = [],
                   stdinOpen = None, streamsDestroyed = False \<rparr>"
  have s0: "currentRun (state w0) = Some 0" "clock w0 = 0"
    "heap w0 0 = \<lparr> child = c0, signalAborted = False, externalLinked = False, aborted = False,
         abortReason = None, softKillTimer = None, hardKillTimer = None \<rparr>"
    using spawn_fresh[of "freshThread noOpts" 0 "''hello''" stream_json plainRun]
    by (simp_all add: w0_def c0_def plainRun_def)
  have h1: "heap w1 0 = \<lparr> child = c0, signalAborted = False, externalLinked = False, aborted = True,
         abortReason = Some ''stop'', softKillTimer = Some (Timer 250 True),
         hardKillTimer = Some (Timer 1500 True) \<rparr>"
    unfolding w1_def interrupt_def
    using s0 by (simp add: heap_abortChild_live end_stdin_def c0_def)
  have k1: "clock w1 = 0"
    by (simp add: w1_def interrupt_def s0)
  have h2: "heap w2 0 = \<lparr> child = c0\<lparr>killed := True, received := [(250, SIGTERM)]\<rparr>,
         signalAborted = False, externalLinked = False, aborted = True,
         abortReason = Some ''stop'', softKillTimer = Some (Timer 250 False),
         hardKillTimer = Some (Timer 1500 True) \<rparr>"
    unfolding w2_def heap_elapse h1 k1
    by (simp add: softKillDue_def hardKillDue_def kill_def c0_def)
  have k2: "clock w2 = 250"
    by (simp add: w2_def k1)
  have h3: "heap w3 0 = \<lparr> child = c0\<lparr>killed := True, received := [(250, SIGTERM)]\<rparr>,
         signalAborted = False, externalLinked = False, aborted = True,
         abortReason = Some ''stop'', softKillTimer = Some (Timer 250 False),
         hardKillTimer = Some (Timer 1500 False) \<rparr>"
    unfolding w3_def heap_elapse h2 k2
    by (simp add: softKillDue_def hardKillDue_def kill_def c0_def)
  have k3: "clock w3 = 1500"
    by (simp add: w3_def k2)
  have h4: "heap w4 0 = heap w3 0"
    unfolding w4_def heap_elapse h3 k3
    by (simp add: softKillDue_def hardKillDue_def)
  show ?thesis
    unfolding Let_def w0_def[symmetric] w1_def[symmetric] w2_def[symmetric] w3_def[symmetric]
      w4_def[symmetric] h4
    by (simp add: h1 h2 h3 k3 c0_def)
qed

subsection \<open>Stepping a streamed codex run\<close>

lemma cstep_pull_start:
  "cphase s = CStart \<Longrightarrow>
   cstep CPull s = s\<lparr>cphase := CAwaitRun, cw := (cw s)\<lparr>sdkCalls := sdkCalls (cw s) + 1\<rparr>\<rparr>"
  by (simp add: cstep_def)

lemma cstep_started:
  "cphase s = CAwaitRun \<Longrightarrow>
   cstep (Started tid) s =
     (if truthy_str tid
      then s\<lparr>cw := (cw s)\<lparr>cstate := (cstate (cw s))\<lparr>id_c := tid\<rparr>, chandle_id := tid\<rparr>,
             cphase := CAwaitEvent\<rparr>
      else s\<lparr>cphase := CAwaitEvent\<rparr>)"
  by (simp add: cstep_def)

lemma cstep_event:
  "cphase s = CAwaitEvent \<Longrightarrow> normalizeCodexEvent ev = e # es \<Longrightarrow>
   cstep (BEvent ev) s = s\<lparr>pending := es, cyielded := cyielded s @ [e], cphase := CYield\<rparr>"
  by (simp add: cstep_def yieldNext_def)

lemma cstep_pull_yield:
  "cphase s = CYield \<Longrightarrow>
   cstep CPull s =
     (case pending s of
        [] \<Rightarrow> s\<lparr>cphase := CAwaitEvent\<rparr>
      | e # es \<Rightarrow> s\<lparr>pending := es, cyielded := cyielded s @ [e], cphase := CYield\<rparr>)"
  by (simp add: cstep_def yieldNext_def)

lemma cstep_end:
  "cphase s = CAwaitEvent \<Longrightarrow>
   cstep BEnd s = (finally_c (s\<lparr>completed := True\<rparr>))\<lparr>cphase := CEnded Completed\<rparr>"
  by (simp add: cstep_def)

lemma cstep_interrupt: "cstep (CInterrupt r) s = s\<lparr>cw := interrupt_c r (cw s)\<rparr>"
  by (simp add: cstep_def)

lemma finally_c_fields [simp]:
  "cyielded (finally_c s) = cyielded s" "cphase (finally_c s) = cphase s"
  "pending (finally_c s) = pending s" "crid (finally_c s) = crid s"
  "completed (finally_c s) = completed s" "threw (finally_c s) = threw s"
  "caught (finally_c s) = caught s"
  by (simp_all add: finally_c_def Let_def)

lemma crun_Nil [simp]: "crun [] s = s"
  by (simp add: crun_def)

lemma crun_Cons [simp]: "crun (sg # sigs) s = crun sigs (cstep sg s)"
  by (simp add: crun_def)

lemma codex_start_fields:
  "cphase (projr (runStreamedInternal_c ro (startThread_c d ov))) = CStart"
  "cyielded (projr (runStreamedInternal_c ro (startThread_c d ov))) = []"
  "pending (projr (runStreamedInternal_c ro (startThread_c d ov))) = []"
  "crid (projr (runStreamedInternal_c ro (startThread_c d ov))) = 0"
  by (simp_all add: runStreamedInternal_c_def assertIdle_c_def startThread_c_def
        createThreadHandle_c_def beginRun_c_def Let_def)

lemma normalize_thread_started:
  "normalizeCodexEvent (Some (JObj [(''type'', JStr ''thread.started''), (''thread_id'', JStr t)]))
   = [mkEvent T_init codex
        [(''threadId'', Some (JStr t)),
         (''originalItem'', Some (JObj [(''type'', JStr ''thread.started''), (''thread_id'', JStr t)]))]]"
  by (simp add: normalizeCodexEvent_def Let_def jstr_def)

lemma normalize_turn_completed:
  "normalizeCodexEvent (Some (JObj [(''type'', JStr ''turn.completed'')]))
   = [mkEvent T_usage codex
        [(''stats'', None), (''originalItem'', Some (JObj [(''type'', JStr ''turn.completed'')]))],
      mkEvent T_done codex [(''originalItem'', Some (JObj [(''type'', JStr ''turn.completed'')]))]]"
  by (simp add: normalizeCodexEvent_def Let_def jstr_def startsWith_def)

text \<open>
  Claim C5 at a codex run whose backend yields \<open>thread.started\<close> and then ends: the
  consumer receives the \<open>init\<close> event, the iteration completes, and no \<open>done\<close> event
  was emitted.
\<close>

theorem C5_codex_emits_no_done:
  "(let s = crun [CPull, Started (Some ''t1''),
                  BEvent (Some (JObj [(''type'', JStr ''thread.started''), (''thread_id'', JStr ''t1'')])),
                  CPull, BEnd]
               (projr (runStreamedInternal_c plainRun (startThread_c noOpts noOpts)))
    in cphase s = CEnded Completed
       \<and> map etype (cyielded s) = [T_init]
       \<and> \<not> has_type T_done (cyielded s))"
  by (simp add: Let_def cstep_pull_start cstep_started cstep_event cstep_pull_yield cstep_end
        codex_start_fields normalize_thread_started mkEvent_def has_type_def)

subsection \<open>A process that exits with a failure after its output closed\<close>

lemma running_due [simp]:
  "running (child (softKillDue now r)) = running (child r)"
  "running (child (hardKillDue now r)) = running (child r)"
  by (simp_all add: softKillDue_def hardKillDue_def kill_def split: option.splits timer.splits bool.splits)

lemma elapse_keeps:
  "aborted (heap (elapse a d w) b) = aborted (heap w b)"
  "running (child (heap (elapse a d w) b)) = running (child (heap w b))"
  by (simp_all add: elapse_def fireSoftKill_def fireHardKill_def)

lemma grun_Nil [simp]: "grun parse [] s = s"
  by (simp add: grun_def)

lemma grun_Cons [simp]: "grun parse (sg # sigs) s = grun parse sigs (gstep parse sg s)"
  by (simp add: grun_def)

lemma grun_append: "grun parse (xs @ ys) s = grun parse ys (grun parse xs s)"
  by (simp add: grun_def)

lemma all_Ev_line: "list_all line_entry t \<Longrightarrow> list_all is_Ev t"
proof (induction t)
  case Nil
  then show ?case by simp
next
  case (Cons x t)
  then show ?case by (cases x) simp_all
qed

lemma receive_Ev:
  "receive (Ev e) s = s\<lparr>delivered := delivered s @ [Ev e], gen := SuspendedYield\<rparr>"
  by (simp add: receive_def Let_def)

lemma emit_Ev_fields:
  assumes i: "inbox s = []"
    and w: "if gen s = Awaiting then waiters s = 1 \<and> queue s = [] else waiters s = 0"
    and e: "list_all is_Ev es"
  shows "world (settle (emit es s)) = world s \<and> finished (settle (emit es s)) = finished s
         \<and> exitListener (settle (emit es s)) = exitListener s
         \<and> rid (settle (emit es s)) = rid s
         \<and> is_over (gen (settle (emit es s))) = is_over (gen s)"
proof (cases "gen s = Awaiting")
  case True
  show ?thesis
  proof (cases es)
    case Nil
    with i show ?thesis by simp
  next
    case (Cons x xs)
    then obtain e where x: "x = Ev e" using e by (cases x) simp_all
    have em: "emit (x # xs) s = s\<lparr>waiters := 0, inbox := [x], queue := xs\<rparr>"
      using True w i by (simp add: emit_one_waiter)
    show ?thesis
      unfolding Cons em using True x by (simp add: settle_def receive_Ev)
  qed
next
  case False
  have em: "emit es s = s\<lparr>queue := queue s @ es\<rparr>"
    using False w by (simp add: emit_no_waiters)
  show ?thesis using i by (simp add: em)
qed

lemma live_parts:
  "live s \<Longrightarrow> ginv s" "live s \<Longrightarrow> \<not> finished s" "live s \<Longrightarrow> \<not> aborted (activeOf s)"
  "live s \<Longrightarrow> exitListener s" "live s \<Longrightarrow> running (child (activeOf s))"
  "live s \<Longrightarrow> \<not> is_over (gen s)"
  by (simp_all add: live_def)

lemma live_handleLine:
  assumes l: "live s"
  shows "live (settle (handleLine parse ln s))"
proof -
  have g: "ginv s" using l by (rule live_parts)
  have g': "ginv (settle (handleLine parse ln s))" using g by (rule ginv_handleLine)
  show ?thesis
  proof (cases "parse ln")
    case None
    with l g show ?thesis by (simp add: handleLine_def ginv_parts)
  next
    case (Some ev)
    let ?s = "s\<lparr>world := captureGeminiSessionMetadata (Some ev) (world s)\<rparr>"
    have hl: "handleLine parse ln s = emit (map Ev (normalizeGeminiEvent (Some ev))) ?s"
      using Some live_parts(2)[OF l] by (simp add: handleLine_def)
    have f: "world (settle (emit (map Ev (normalizeGeminiEvent (Some ev))) ?s)) = world ?s
         \<and> finished (settle (emit (map Ev (normalizeGeminiEvent (Some ev))) ?s)) = finished ?s
         \<and> exitListener (settle (emit (map Ev (normalizeGeminiEvent (Some ev))) ?s)) = exitListener ?s
         \<and> rid (settle (emit (map Ev (normalizeGeminiEvent (Some ev))) ?s)) = rid ?s
         \<and> is_over (gen (settle (emit (map Ev (normalizeGeminiEvent (Some ev))) ?s))) = is_over (gen ?s)"
    proof (rule emit_Ev_fields)
      show "inbox ?s = []" using g by (simp add: ginv_parts)
      show "if gen ?s = Awaiting then waiters ?s = 1 \<and> queue ?s = [] else waiters ?s = 0"
        using ginv_w[OF g] by simp
      show "list_all is_Ev (map Ev (normalizeGeminiEvent (Some ev)))"
        by (simp add: list_all_iff)
    qed
    show ?thesis
      unfolding live_def
      using g' l f by (simp add: hl live_def activeOf_def)
  qed
qed

lemma live_pull:
  assumes l: "live s"
  shows "live (pull s)"
proof -
  have g: "ginv s" using l by (rule live_parts)
  have g': "ginv (pull s)" using g by (rule ginv_pull)
  show ?thesis
  proof (cases "gen s = SuspendedStart \<or> gen s = SuspendedYield")
    case False
    with l show ?thesis by (simp add: pull_def)
  next
    case sus: True
    show ?thesis
    proof (cases "queue s")
      case Nil
      have "pull s = s\<lparr>waiters := waiters s + 1, gen := Awaiting\<rparr>"
        using sus Nil live_parts(2)[OF l] by (auto simp: pull_def)
      then show ?thesis
        using g' l by (simp add: live_def activeOf_def)
    next
      case (Cons x q)
      have "list_all line_entry (trace s)"
        using ginv_parts(2)[OF g] live_parts(2)[OF l] by (simp add: shape_False_iff)
      then have "list_all is_Ev (trace s)" by (rule all_Ev_line)
      then have "is_Ev x" using Cons by (simp add: trace_def)
      then obtain e where x: "x = Ev e" by (cases x) simp_all
      have "pull s = s\<lparr>queue := q, delivered := delivered s @ [Ev e], gen := SuspendedYield\<rparr>"
        using sus Cons x by (auto simp: pull_def receive_Ev)
      then show ?thesis
        using g' l by (simp add: live_def activeOf_def)
    qed
  qed
qed

lemma live_gstep:
  assumes l: "live s" and b: "benign sg"
  shows "live (gstep parse sg s)"
proof (cases sg)
  case (Line ln)
  show ?thesis
  proof (cases "lineListener s")
    case True
    with Line live_handleLine[OF l] show ?thesis by (simp add: gstep_def)
  next
    case False
    with Line l show ?thesis by (simp add: gstep_def live_def ginv_parts)
  qed
next
  case Close
  have "handleClose (s\<lparr>closeListener := False\<rparr>) = s\<lparr>closeListener := False\<rparr>"
    using live_parts(3)[OF l] by (simp add: handleClose_def activeOf_def)
  then show ?thesis
    using Close l by (simp add: gstep_def live_def ginv_parts activeOf_def)
next
  case (Elapse d)
  then show ?thesis
    using l by (simp add: gstep_def live_def ginv_parts activeOf_def elapse_keeps)
next
  case Pull
  have "live (pull s)" using l by (rule live_pull)
  then show ?thesis using Pull by (simp add: gstep_def live_def ginv_parts)
qed (use b in simp_all)

lemma live_grun: "live s \<Longrightarrow> list_all benign sigs \<Longrightarrow> live (grun parse sigs s)"
  by (induction sigs arbitrary: s) (simp_all add: live_gstep)

lemma live_initial: "runStreamedInternal prompt ro w = Inr s0 \<Longrightarrow> live s0"
proof -
  assume r: "runStreamedInternal prompt ro w = Inr s0"
  have g: "ginv s0" using r by (rule ginv_initial)
  show "live s0"
    using r g
    by (auto simp: live_def runStreamedInternal_def spawnGeminiProcess_def Let_def activeOf_def
          split: option.splits)
qed

text \<open>After the failing exit\<close>

lemma gstep_pull_over: "is_over (gen s) \<Longrightarrow> inbox s = [] \<Longrightarrow> gstep parse Pull s = s"
  by (cases "gen s") (simp_all add: gstep_def pull_def)

lemma pulls_over: "is_over (gen s) \<Longrightarrow> inbox s = [] \<Longrightarrow> grun parse (replicate n Pull) s = s"
  by (induction n) (simp_all add: gstep_pull_over)

lemma pull_Failure:
  "gen s = SuspendedStart \<or> gen s = SuspendedYield \<Longrightarrow> inbox s = [] \<Longrightarrow>
   queue s = Failure x # q \<Longrightarrow>
   gen (gstep parse Pull s) = Ended (Threw x) \<and> inbox (gstep parse Pull s) = []"
  by (auto simp: gstep_def pull_def gen_receive)

lemma pull_Ev:
  "gen s = SuspendedStart \<or> gen s = SuspendedYield \<Longrightarrow> inbox s = [] \<Longrightarrow>
   queue s = Ev e # q \<Longrightarrow>
   gstep parse Pull s = s\<lparr>queue := q, delivered := delivered s @ [Ev e], gen := SuspendedYield\<rparr>"
  by (auto simp: gstep_def pull_def receive_Ev)

lemma drain_to_Failure:
  "gen s = SuspendedStart \<or> gen s = SuspendedYield \<Longrightarrow> inbox s = [] \<Longrightarrow>
   queue s = map Ev evs @ Failure x # q \<Longrightarrow> length evs < n \<Longrightarrow>
   gen (grun parse (replicate n Pull) s) = Ended (Threw x)"
proof (induction evs arbitrary: s n)
  case Nil
  then obtain m where n: "n = Suc m" by (cases n) simp_all
  have "gen (gstep parse Pull s) = Ended (Threw x) \<and> inbox (gstep parse Pull s) = []"
    using Nil by (intro pull_Failure) auto
  then show ?case
    unfolding n by (simp add: pulls_over)
next
  case (Cons e evs)
  then obtain m where n: "n = Suc m" by (cases n) simp_all
  have st: "gstep parse Pull s = s\<lparr>queue := map Ev evs @ Failure x # q, delivered := delivered s @ [Ev e], gen := SuspendedYield\<rparr>"
    using Cons.prems by (intro pull_Ev) auto
  have "gen (grun parse (replicate m Pull) (gstep parse Pull s)) = Ended (Threw x)"
    using Cons.prems n by (intro Cons.IH) (simp_all add: st)
  then show ?case unfolding n by simp
qed

lemma line_entries_Ev: "list_all line_entry t \<Longrightarrow> \<exists>evs. t = map Ev evs"
proof (induction t)
  case Nil
  then show ?case by simp
next
  case (Cons x t)
  then obtain evs where "t = map Ev evs" by auto
  moreover obtain e where "x = Ev e" using Cons.prems by (cases x) simp_all
  ultimately have "x # t = map Ev (e # evs)" by simp
  then show ?case by (rule exI[of _ "e # evs"])
qed

lemma exit_failure_step:
  assumes l: "live s" and c: "code \<noteq> Some 0"
  shows "gen (grun parse (replicate (length (queue (gstep parse (Exit code) s))) Pull)
                (gstep parse (Exit code) s))
         = Ended (Threw (new_Error (''gemini exited with code '' @ code_str code)))"
proof -
  let ?err = "new_Error (''gemini exited with code '' @ code_str code)"
  let ?s1 = "s\<lparr>world := processExits (rid s) code (world s), exitListener := False, finished := True\<rparr>"
  have g: "ginv s" using l by (rule live_parts)
  have na: "\<not> aborted (heap (processExits (rid s) code (world s)) (rid s))"
    using live_parts(3)[OF l] by (simp add: processExits_def activeOf_def)
  have ex: "onExit code (s\<lparr>world := processExits (rid s) code (world s), exitListener := False\<rparr>)
            = emit [Failure ?err, DONE] ?s1"
    using live_parts(2)[OF l] na c by (simp add: onExit_def Let_def activeOf_def)
  have st: "gstep parse (Exit code) s = settle (emit [Failure ?err, DONE] ?s1)"
    using live_parts(4,5)[OF l] ex by (simp add: gstep_def Let_def)
  show ?thesis
  proof (cases "gen s = Awaiting")
    case True
    have em: "emit [Failure ?err, DONE] ?s1 = ?s1\<lparr>waiters := 0, inbox := [Failure ?err], queue := [DONE]\<rparr>"
      using True ginv_parts(1)[OF g] ginv_w[OF g] by (simp add: emit_one_waiter)
    have "gen (gstep parse (Exit code) s) = Ended (Threw ?err) \<and> inbox (gstep parse (Exit code) s) = []"
      unfolding st em using True by (simp add: settle_def gen_receive)
    then show ?thesis by (simp add: pulls_over)
  next
    case False
    have em: "emit [Failure ?err, DONE] ?s1 = ?s1\<lparr>queue := queue s @ [Failure ?err, DONE]\<rparr>"
      using False ginv_w[OF g] by (simp add: emit_no_waiters)
    have s2: "gstep parse (Exit code) s = ?s1\<lparr>queue := queue s @ [Failure ?err, DONE]\<rparr>"
      unfolding st em using ginv_parts(1)[OF g] by simp
    have "list_all line_entry (trace s)"
      using ginv_parts(2)[OF g] live_parts(2)[OF l] by (simp add: shape_False_iff)
    then have "list_all line_entry (queue s)" by (simp add: trace_def)
    then obtain evs where q: "queue s = map Ev evs" using line_entries_Ev by blast
    have sus: "gen s = SuspendedStart \<or> gen s = SuspendedYield"
      using False live_parts(6)[OF l] by (cases "gen s") simp_all
    show ?thesis
      unfolding s2
      using sus ginv_parts(1)[OF g] q
      by (intro drain_to_Failure[where evs = evs and q = "[DONE]"]) simp_all
  qed
qed

lemma close_alone:
  assumes g: "ginv s" and na: "\<not> aborted (activeOf s)"
  shows "trace (gstep parse Close s) = trace s \<and> finished (gstep parse Close s) = finished s"
proof -
  have "handleClose (s\<lparr>closeListener := False\<rparr>) = s\<lparr>closeListener := False\<rparr>"
    using na by (simp add: handleClose_def activeOf_def)
  then show ?thesis
    using ginv_parts(1)[OF g] by (simp add: gstep_def)
qed

lemma runInternal_exit_failure:
  assumes i: "currentRun (state w) = None" and n: "\<not> list_ex is_abort sigs" and c: "code \<noteq> Some 0"
  shows "fst (runInternal parse prompt ro sigs (Exited out err code) w)
         = Inl (new_Error (''gemini exited with code '' @ code_str code @ '': '' @ err))"
proof -
  obtain b w1 where sp: "spawnGeminiProcess prompt json_format ro w = (b, w1)"
    by (cases "spawnGeminiProcess prompt json_format ro w")
  have st: "runInternal_start prompt ro w = Inr (b, w1)"
    using i sp by (simp add: runInternal_start_def assertIdle_def)
  have "\<not> aborted (heap w1 b)"
    using sp by (auto simp: spawnGeminiProcess_def Let_def)
  then have "\<not> aborted (heap (foldl (\<lambda>w sg. wstep b sg w) w1 sigs) b)"
    using n by (simp add: not_aborted_wsteps)
  then have "\<not> aborted (heap (processExits b code (foldl (\<lambda>w sg. wstep b sg w) w1 sigs)) b)"
    by (simp add: processExits_def)
  then show ?thesis
    using c by (simp add: runInternal_def st fst_finish runInternal_body_def Let_def)
qed

subsection \<open>What the generator of a streamed gemini run has received\<close>

lemma emit_gen [simp]: "gen (emit es s) = gen s"
  unfolding emit_def by (induction es arbitrary: s) (simp_all add: push_def)

lemma emit_delivered [simp]: "delivered (emit es s) = delivered s"
  unfolding emit_def by (induction es arbitrary: s) (simp_all add: push_def)

lemma handler_gen_delivered:
  "gen (handleLine parse l s) = gen s \<and> delivered (handleLine parse l s) = delivered s"
  "gen (handleClose s) = gen s \<and> delivered (handleClose s) = delivered s"
  "gen (onExit code s) = gen s \<and> delivered (onExit code s) = delivered s"
  "gen (onError e s) = gen s \<and> delivered (onError e s) = delivered s"
  by (simp_all add: handleLine_def handleClose_def onExit_def onError_def Let_def split: option.splits)

lemma delivered_ok_receive:
  "\<not> is_over (gen s) \<Longrightarrow> delivered_ok (gen s) (delivered s) \<Longrightarrow>
   delivered_ok (gen (receive e s)) (delivered (receive e s))"
  by (cases "gen s"; cases e) (simp_all add: gen_receive)

lemma delivered_ok_settle:
  "delivered_ok (gen s) (delivered s) \<Longrightarrow> delivered_ok (gen (settle s)) (delivered (settle s))"
proof (cases "inbox s")
  case Nil
  assume "delivered_ok (gen s) (delivered s)"
  with Nil show ?thesis by (simp add: settle_def)
next
  case (Cons e es)
  assume d: "delivered_ok (gen s) (delivered s)"
  show ?thesis
  proof (cases "gen s = Awaiting")
    case True
    have "delivered_ok (gen (receive e (s\<lparr>inbox := es\<rparr>))) (delivered (receive e (s\<lparr>inbox := es\<rparr>)))"
      using True d by (intro delivered_ok_receive) simp_all
    with True Cons show ?thesis by (simp add: settle_def)
  next
    case False
    with Cons d show ?thesis by (simp add: settle_def)
  qed
qed

lemma delivered_ok_pull:
  "delivered_ok (gen s) (delivered s) \<Longrightarrow> delivered_ok (gen (pull s)) (delivered (pull s))"
proof -
  assume d: "delivered_ok (gen s) (delivered s)"
  show ?thesis
  proof (cases "gen s = SuspendedStart \<or> gen s = SuspendedYield")
    case False
    with d show ?thesis by (simp add: pull_def)
  next
    case sus: True
    then have no: "\<not> is_over (gen s)" by auto
    have r: "\<And>e q. delivered_ok (gen (receive e (s\<lparr>queue := q\<rparr>))) (delivered (receive e (s\<lparr>queue := q\<rparr>)))"
      using no d by (intro delivered_ok_receive) simp_all
    have r2: "delivered_ok (gen (receive DONE s)) (delivered (receive DONE s))"
      using no d by (intro delivered_ok_receive) simp_all
    have ev: "list_all is_Ev (delivered s)" using sus d by auto
    show ?thesis
      using sus r r2 ev by (auto simp: pull_def split: list.splits)
  qed
qed

lemma delivered_ok_consumerReturn:
  "delivered_ok (gen s) (delivered s) \<Longrightarrow>
   delivered_ok (gen (consumerReturn s)) (delivered (consumerReturn s))"
  by (auto simp: consumerReturn_def)

lemma delivered_ok_gstep:
  assumes d: "delivered_ok (gen s) (delivered s)"
  shows "delivered_ok (gen (gstep parse sg s)) (delivered (gstep parse sg s))"
proof -
  have "delivered_ok
          (gen (case sg of
          Line l \<Rightarrow> if lineListener s then handleLine parse l s else s
        | Close \<Rightarrow> if closeListener s then handleClose (s\<lparr>closeListener := False\<rparr>) else s
        | Exit code \<Rightarrow>
            if running (child (activeOf s)) then
              (let s1 = s\<lparr>world := processExits (rid s) code (world s)\<rparr> in
               if exitListener s1 then onExit code (s1\<lparr>exitListener := False\<rparr>) else s1)
            else s
        | ChildError e \<Rightarrow> if errorListener s then onError e (s\<lparr>errorListener := False\<rparr>) else s
        | Interrupt r \<Rightarrow> s\<lparr>world := interrupt r (world s)\<rparr>
        | ExternalAbort r \<Rightarrow> s\<lparr>world := externalAbort (rid s) r (world s)\<rparr>
        | Elapse d \<Rightarrow> s\<lparr>world := elapse (rid s) d (world s)\<rparr>
        | Pull \<Rightarrow> pull s
        | Return \<Rightarrow> consumerReturn s))
          (delivered (case sg of
          Line l \<Rightarrow> if lineListener s then handleLine parse l s else s
        | Close \<Rightarrow> if closeListener s then handleClose (s\<lparr>closeListener := False\<rparr>) else s
        | Exit code \<Rightarrow>
            if running (child (activeOf s)) then
              (let s1 = s\<lparr>world := processExits (rid s) code (world s)\<rparr> in
               if exitListener s1 then onExit code (s1\<lparr>exitListener := False\<rparr>) else s1)
            else s
        | ChildError e \<Rightarrow> if errorListener s then onError e (s\<lparr>errorListener := False\<rparr>) else s
        | Interrupt r \<Rightarrow> s\<lparr>world := interrupt r (world s)\<rparr>
        | ExternalAbort r \<Rightarrow> s\<lparr>world := externalAbort (rid s) r (world s)\<rparr>
        | Elapse d \<Rightarrow> s\<lparr>world := elapse (rid s) d (world s)\<rparr>
        | Pull \<Rightarrow> pull s
        | Return \<Rightarrow> consumerReturn s))"
    using d
    by (cases sg)
       (simp_all add: handler_gen_delivered Let_def delivered_ok_pull delivered_ok_consumerReturn)
  then show ?thesis
    unfolding gstep_def by (rule delivered_ok_settle)
qed

lemma delivered_ok_grun:
  "delivered_ok (gen s) (delivered s) \<Longrightarrow>
   delivered_ok (gen (grun parse sigs s)) (delivered (grun parse sigs s))"
  by (induction sigs arbitrary: s) (simp_all add: delivered_ok_gstep)

lemma delivered_ok_initial:
  "runStreamedInternal prompt ro w = Inr s0 \<Longrightarrow> delivered_ok (gen s0) (delivered s0)"
  by (auto simp: runStreamedInternal_def split: option.splits prod.splits)

lemma over_frozen:
  assumes o: "is_over (gen s)"
  shows "gen (gstep parse sg s) = gen s \<and> delivered (gstep parse sg s) = delivered s"
proof -
  have na: "gen s \<noteq> Awaiting" "gen s \<noteq> SuspendedStart" "gen s \<noteq> SuspendedYield"
    using o by auto
  have st: "\<And>t. gen t = gen s \<Longrightarrow> delivered t = delivered s \<Longrightarrow>
              gen (settle t) = gen s \<and> delivered (settle t) = delivered s"
    using na by (simp add: settle_def split: list.splits)
  show ?thesis
    unfolding gstep_def
    using na
    by (intro st; cases sg)
       (simp_all add: handler_gen_delivered Let_def pull_def consumerReturn_def)
qed

subsection \<open>Streamed codex runs\<close>

lemma ends_ok_no_cancelled: "\<not> has_type T_cancelled evs \<Longrightarrow> ends_ok evs"
  by (induction evs) (simp_all add: has_type_def)

lemma ends_ok_cancel_last:
  "\<not> has_type T_cancelled pre \<Longrightarrow> etype c = T_cancelled \<Longrightarrow> ends_ok (pre @ [c])"
  by (induction pre) (simp_all add: has_type_def)

lemma ends_ok_cancel_pair:
  "\<not> has_type T_cancelled pre \<Longrightarrow> etype c = T_cancelled \<Longrightarrow> is_interrupted e \<Longrightarrow>
   ends_ok (pre @ [c, e])"
  by (induction pre) (simp_all add: has_type_def)

lemma cancelled_type [simp]: "etype (createCancelledEvent r) = T_cancelled"
  by (simp add: createCancelledEvent_def cancelledEvent_def mkEvent_def)

lemma interrupted_type [simp]:
  "etype (createInterruptedErrorEvent r) = T_error" "is_interrupted (createInterruptedErrorEvent r)"
  by (simp_all add: createInterruptedErrorEvent_def interruptedErrorEvent_def mkEvent_def
        is_interrupted_def)

lemma normalizeCodex_no_cancelled: "\<not> has_type T_cancelled (normalizeCodexEvent ev)"
  by (simp add: normalizeCodexEvent_def Let_def mkEvent_def has_type_def)

lemma has_type_Cons [simp]: "has_type t (e # es) = (etype e = t \<or> has_type t es)"
  by (simp add: has_type_def)

lemma has_type_Nil [simp]: "\<not> has_type t []"
  by (simp add: has_type_def)

lemma abort_caught_upd [simp]:
  "abort_caught (s\<lparr>cw := w\<rparr>) = abort_caught s"
  "abort_caught (s\<lparr>cphase := p\<rparr>) = abort_caught s"
  "abort_caught (s\<lparr>pending := es\<rparr>) = abort_caught s"
  "abort_caught (s\<lparr>cyielded := ys\<rparr>) = abort_caught s"
  "abort_caught (s\<lparr>completed := b\<rparr>) = abort_caught s"
  "abort_caught (finally_c s) = abort_caught s"
  by (simp_all add: abort_caught_def)

lemma cinv_yieldNext:
  assumes c: "cinv s" and p: "cphase s = CYield \<or> cphase s = CAwaitEvent"
  shows "cinv (yieldNext s)"
  using c p by (cases "pending s") (auto simp: cinv_def yieldNext_def)

lemma cinv_ended_plain:
  assumes c: "cinv s" and p: "cphase s = CStart \<or> cphase s = CAwaitRun \<or> cphase s = CAwaitEvent \<or> cphase s = CYield"
  shows "cinv ((finally_c s)\<lparr>cphase := CEnded oc\<rparr>)"
  using c p by (auto simp: cinv_def abort_caught_def ends_ok_no_cancelled)

lemma cinv_cstep:
  assumes c: "cinv s"
  shows "cinv (cstep sg s)"
proof (cases sg)
  case CPull
  show ?thesis
  proof (cases "cphase s")
    case CStart
    with c CPull show ?thesis by (simp add: cstep_def cinv_def)
  next
    case CYield
    with c CPull show ?thesis by (simp add: cstep_def cinv_yieldNext)
  next
    case (CCatch1 r)
    with c CPull show ?thesis by (auto simp: cstep_def cinv_def)
  next
    case CCatch2
    with c CPull show ?thesis
      by (auto simp: cstep_def cinv_def ends_ok_cancel_pair)
  qed (use c CPull in \<open>simp_all add: cstep_def\<close>)
next
  case CReturn
  show ?thesis
  proof (cases "cphase s")
    case CStart
    with c CReturn show ?thesis
      by (simp add: cstep_def cinv_def abort_caught_def ends_ok_no_cancelled)
  next
    case CYield
    with c CReturn show ?thesis by (simp add: cstep_def cinv_ended_plain)
  next
    case (CCatch1 r)
    with c CReturn show ?thesis
      by (auto simp: cstep_def cinv_def ends_ok_cancel_last)
  next
    case CCatch2
    with c CReturn show ?thesis
      by (auto simp: cstep_def cinv_def ends_ok_cancel_pair)
  qed (use c CReturn in \<open>simp_all add: cstep_def\<close>)
next
  case (Started tid)
  with c show ?thesis by (auto simp: cstep_def cinv_def)
next
  case (BEvent ev)
  show ?thesis
  proof (cases "cphase s = CAwaitEvent")
    case True
    have "cinv (s\<lparr>pending := normalizeCodexEvent ev\<rparr>)"
      using c True by (simp add: cinv_def normalizeCodex_no_cancelled)
    then have "cinv (yieldNext (s\<lparr>pending := normalizeCodexEvent ev\<rparr>))"
      using True by (intro cinv_yieldNext) simp_all
    with True BEvent show ?thesis by (simp add: cstep_def)
  next
    case False
    with c BEvent show ?thesis by (simp add: cstep_def)
  qed
next
  case BEnd
  show ?thesis
  proof (cases "cphase s = CAwaitEvent")
    case True
    have "cinv (s\<lparr>completed := True\<rparr>)" using c True by (simp add: cinv_def)
    then have "cinv ((finally_c (s\<lparr>completed := True\<rparr>))\<lparr>cphase := CEnded Completed\<rparr>)"
      using True by (intro cinv_ended_plain) simp_all
    with True BEnd show ?thesis by (simp add: cstep_def)
  next
    case False
    with c BEnd show ?thesis by (simp add: cstep_def)
  qed
next
  case (BRaise err)
  show ?thesis
  proof (cases "cphase s = CAwaitRun \<or> cphase s = CAwaitEvent")
    case True
    have nc: "\<not> has_type T_cancelled (cyielded s)" "\<not> has_type T_cancelled (pending s)"
      using c True by (auto simp: cinv_def)
    have "cinv (catch_c err s)"
    proof (cases "isAbortError err")
      case True
      with nc show ?thesis
        by (simp add: catch_c_def Let_def cinv_def abort_caught_def)
    next
      case False
      with nc show ?thesis
        by (simp add: catch_c_def Let_def cinv_def abort_caught_def ends_ok_no_cancelled)
    qed
    with True BRaise show ?thesis by (simp add: cstep_def)
  next
    case False
    with c BRaise show ?thesis by (simp add: cstep_def)
  qed
next
  case (CInterrupt r)
  with c show ?thesis by (simp add: cstep_def cinv_def split: cphase.splits)
next
  case (CExternalAbort r)
  with c show ?thesis by (simp add: cstep_def cinv_def split: cphase.splits)
qed

lemma cinv_crun: "cinv s \<Longrightarrow> cinv (crun sigs s)"
  by (induction sigs arbitrary: s) (simp_all add: cinv_cstep)

lemma cinv_initial: "runStreamedInternal_c ro v = Inr c0 \<Longrightarrow> cinv c0"
  by (auto simp: runStreamedInternal_c_def cinv_def split: option.splits prod.splits)

lemma cinv_cancelled: "cinv s \<Longrightarrow> has_type T_cancelled (cyielded s) = abort_caught s"
  by (cases "cphase s") (auto simp: cinv_def abort_caught_def)

lemma cinv_ends_ok: "cinv s \<Longrightarrow> ends_ok (cyielded s)"
  by (cases "cphase s")
     (auto simp: cinv_def ends_ok_no_cancelled ends_ok_cancel_last ends_ok_cancel_pair)

lemma ended_frozen_c:
  "is_ended (cphase s) \<Longrightarrow> cyielded (cstep sg s) = cyielded s \<and> cphase (cstep sg s) = cphase s"
  by (cases "cphase s"; cases sg) (simp_all add: cstep_def)

subsection \<open>Streamed claude runs\<close>

lemma yieldEvents_k_facts:
  "yieldEvents_k es sd = (ys, returned, sd') \<Longrightarrow>
     error_last ys
     \<and> (returned \<longrightarrow> has_type T_error ys)
     \<and> (\<not> returned \<longrightarrow> \<not> has_type T_error ys \<and> sd' = (sd \<or> has_type T_done ys))"
proof (induction es arbitrary: sd ys returned sd')
  case Nil
  then show ?case by simp
next
  case (Cons e es)
  show ?case
  proof (cases "etype e = T_error")
    case True
    with Cons.prems show ?thesis by auto
  next
    case False
    obtain ys1 r1 sd1 where y: "yieldEvents_k es (sd \<or> etype e = T_done) = (ys1, r1, sd1)"
      by (cases "yieldEvents_k es (sd \<or> etype e = T_done)") auto
    have eq: "ys = e # ys1" "returned = r1" "sd' = sd1"
      using Cons.prems False y by simp_all
    show ?thesis
      using Cons.IH[OF y] False unfolding eq by auto
  qed
qed

lemma error_last_append: "\<not> has_type T_error ys \<Longrightarrow> error_last zs \<Longrightarrow> error_last (ys @ zs)"
  by (induction ys) simp_all

lemma claude_loop_facts:
  "runStreamed_loop_k ms ending tid sd = (evs, oc) \<Longrightarrow>
     error_last evs
     \<and> (oc = Completed \<longrightarrow> sd \<or> has_type T_done evs \<or> has_type T_error evs)"
proof (induction ms arbitrary: sd evs oc)
  case Nil
  then show ?case by (cases ending) (auto simp: mkEvent_def)
next
  case (Cons m ms)
  obtain ys r sd1 where y: "yieldEvents_k (normalizeClaudeStreamMessage m tid) sd = (ys, r, sd1)"
    by (cases "yieldEvents_k (normalizeClaudeStreamMessage m tid) sd") auto
  note f = yieldEvents_k_facts[OF y]
  show ?case
  proof (cases r)
    case True
    with Cons.prems y f show ?thesis by auto
  next
    case False
    obtain zs oc1 where z: "runStreamed_loop_k ms ending tid sd1 = (zs, oc1)"
      by (cases "runStreamed_loop_k ms ending tid sd1") auto
    have eq: "evs = ys @ zs" "oc = oc1"
      using Cons.prems y z False by simp_all
    show ?thesis
      using Cons.IH[OF z] f False unfolding eq
      by (auto simp: error_last_append)
  qed
qed

lemma claude_run_facts:
  "error_last (fst (runStreamed_k msgs ending k))
   \<and> (snd (runStreamed_k msgs ending k) = Completed \<longrightarrow>
        has_type T_done (fst (runStreamed_k msgs ending k))
        \<or> has_type T_error (fst (runStreamed_k msgs ending k)))"
  using claude_loop_facts[of msgs ending "id_k (khandle k)" False
          "fst (runStreamed_k msgs ending k)" "snd (runStreamed_k msgs ending k)"]
  by (simp add: runStreamed_k_def)


subsection \<open>How the event sequences of streamed runs end\<close>

lemma interrupted_end_is: "interrupted_end l \<Longrightarrow> \<exists>e2. l = [Ev e2, DONE] \<and> is_interrupted e2"
  by (cases l rule: interrupted_end.cases) simp_all

lemma interrupted_end_prefix:
  assumes "interrupted_end (t @ rest)"
  shows "interrupted_only (events_of t)"
proof -
  obtain e2 where l: "t @ rest = [Ev e2, DONE]" and i: "is_interrupted e2"
    using interrupted_end_is[OF assms] by blast
  from l have "t = [] \<or> t = [Ev e2] \<or> t = [Ev e2, DONE]"
    by (auto simp: append_eq_Cons_conv)
  with i show ?thesis by auto
qed

lemma shape_ends_ok: "shape fin (d @ rest) \<Longrightarrow> ends_ok (events_of d)"
proof (induction d)
  case Nil
  then show ?case by simp
next
  case (Cons a d)
  show ?case
  proof (cases a)
    case (Ev e)
    with Cons show ?thesis by (auto simp: interrupted_end_prefix)
  next
    case (Failure x)
    with Cons.prems have "d @ rest = [DONE]" by simp
    then have "d = [] \<or> d = [DONE]" by (auto simp: append_eq_Cons_conv)
    with Failure show ?thesis by auto
  next
    case DONE
    with Cons.prems show ?thesis by simp
  qed
qed

lemma shape_threw:
  "shape fin (b @ Failure x # r) \<Longrightarrow> list_all is_Ev b \<Longrightarrow> \<not> has_type T_cancelled (events_of b)"
proof (induction b)
  case Nil
  then show ?case by simp
next
  case (Cons a b)
  show ?case
  proof (cases a)
    case (Ev e)
    show ?thesis
    proof (cases "etype e = T_cancelled")
      case True
      with Cons.prems Ev have "interrupted_end (b @ Failure x # r)" by simp
      then obtain e2 where "b @ Failure x # r = [Ev e2, DONE]"
        using interrupted_end_is by blast
      then have "Failure x \<in> set [Ev e2, DONE]" by (metis in_set_conv_decomp)
      then show ?thesis by simp
    next
      case False
      with Cons Ev show ?thesis by simp
    qed
  qed (use Cons.prems in simp_all)
qed

lemma gemini_stream_end:
  assumes g: "ginv s" and d: "delivered_ok (gen s) (delivered s)"
  shows "ends_ok (yielded s)"
    and "gen s = Ended (Threw x) \<Longrightarrow> \<not> has_type T_cancelled (yielded s)"
proof -
  have sh: "shape (finished s) (delivered s @ inbox s @ queue s)"
    using ginv_parts(2)[OF g] by (simp add: trace_def)
  then show "ends_ok (yielded s)"
    unfolding yielded_def by (rule shape_ends_ok)
  assume t: "gen s = Ended (Threw x)"
  with d have ne: "delivered s \<noteq> []" and la: "last (delivered s) = Failure x"
    and ev: "list_all is_Ev (butlast (delivered s))"
    by simp_all
  have dl: "delivered s = butlast (delivered s) @ [Failure x]"
    using append_butlast_last_id[OF ne] la by simp
  have "shape (finished s) (butlast (delivered s) @ Failure x # (inbox s @ queue s))"
    using sh by (subst (asm) dl) simp
  then have "\<not> has_type T_cancelled (events_of (butlast (delivered s)))"
    using ev by (rule shape_threw)
  then have "\<not> has_type T_cancelled (events_of (butlast (delivered s) @ [Failure x]))"
    by simp
  then show "\<not> has_type T_cancelled (yielded s)"
    unfolding yielded_def using dl by simp
qed

lemma abortReason_processExits [simp]:
  "abortReason (heap (processExits a code w) b) = abortReason (heap w b)"
  "aborted (heap (processExits a code w) b) = aborted (heap w b)"
  by (simp_all add: processExits_def)

lemma exit_aborted_step:
  assumes g: "ginv s" and nf: "\<not> finished s" and a: "aborted (activeOf s)"
    and r: "running (child (activeOf s))" and e: "exitListener s"
  shows "trace (gstep parse (Exit code) s) = trace s @ cancelledPair (activeOf s)"
proof -
  let ?s1 = "s\<lparr>world := processExits (rid s) code (world s), exitListener := False, finished := True\<rparr>"
  have cp: "cancelledPair (activeOf ?s1) = cancelledPair (activeOf s)"
    by (simp add: cancelledPair_def activeOf_def)
  have ab: "aborted (activeOf ?s1)" using a by (simp add: activeOf_def)
  have ex: "onExit code (s\<lparr>world := processExits (rid s) code (world s), exitListener := False\<rparr>)
            = emit (cancelledPair (activeOf s)) ?s1"
    using nf ab cp by (simp add: onExit_def Let_def)
  have st: "gstep parse (Exit code) s = settle (emit (cancelledPair (activeOf s)) ?s1)"
    using r e ex by (simp add: gstep_def Let_def)
  have "trace (settle (emit (cancelledPair (activeOf s)) ?s1)) = trace ?s1 @ cancelledPair (activeOf s)"
    using ginv_parts(1)[OF g] ginv_w[OF g] by (intro trace_settle_emit) simp_all
  then show ?thesis unfolding st by (simp add: trace_def)
qed

lemma yielded_cancelled_aborted:
  assumes "cancel_inv s" and "has_type T_cancelled (yielded s)"
  shows "aborted (activeOf s)"
  using assms by (simp add: cancel_inv_def yielded_def trace_def)

text \<open>
  What the adapters themselves add to the end of a streamed run. Gemini: whatever the
  process, the caller and the consumer do, a \<open>cancelled\<close> event among the events
  yielded is followed by the \<open>interrupted\<close> error at most, an iteration that throws has
  yielded no \<open>cancelled\<close> event, and once the generator is over nothing changes what
  was yielded. Codex: the same for \<open>cancelled\<close>, and an iteration that is over stays as
  it is. Claude: an \<open>error\<close> event is the last event, and an iteration that completes
  has yielded a \<open>done\<close> or an \<open>error\<close> event.
\<close>

lemma adapter_endings:
  "(runStreamedInternal prompt ro w = Inr ini \<and> s = grun parse sigs ini \<longrightarrow>
      ends_ok (yielded s)
      \<and> (gen s = Ended (Threw x) \<longrightarrow> \<not> has_type T_cancelled (yielded s))
      \<and> (is_over (gen s) \<longrightarrow>
           gen (gstep parse sg s) = gen s \<and> yielded (gstep parse sg s) = yielded s))
   \<and> (runStreamedInternal_c cro v = Inr c \<and> t = crun csigs c \<longrightarrow>
        ends_ok (cyielded t)
        \<and> (is_ended (cphase t) \<longrightarrow>
             cphase (cstep csg t) = cphase t \<and> cyielded (cstep csg t) = cyielded t))
   \<and> error_last (fst (runStreamed_k msgs ending k))
   \<and> (snd (runStreamed_k msgs ending k) = Completed \<longrightarrow>
        has_type T_done (fst (runStreamed_k msgs ending k))
        \<or> has_type T_error (fst (runStreamed_k msgs ending k)))"
proof -
  have gem: "ends_ok (yielded s)
      \<and> (gen s = Ended (Threw x) \<longrightarrow> \<not> has_type T_cancelled (yielded s))
      \<and> (is_over (gen s) \<longrightarrow>
           gen (gstep parse sg s) = gen s \<and> yielded (gstep parse sg s) = yielded s)"
    if a: "runStreamedInternal prompt ro w = Inr ini \<and> s = grun parse sigs ini"
  proof -
    have g: "ginv s" using a by (auto intro: ginv_grun ginv_initial)
    have d: "delivered_ok (gen s) (delivered s)"
      using a by (auto intro: delivered_ok_grun delivered_ok_initial)
    show ?thesis
      using gemini_stream_end[OF g d] over_frozen[of s parse sg]
      by (simp add: yielded_def)
  qed
  have cod: "ends_ok (cyielded t)
        \<and> (is_ended (cphase t) \<longrightarrow>
             cphase (cstep csg t) = cphase t \<and> cyielded (cstep csg t) = cyielded t)"
    if a: "runStreamedInternal_c cro v = Inr c \<and> t = crun csigs c"
  proof -
    have "cinv t" using a by (auto intro: cinv_crun cinv_initial)
    then show ?thesis
      using ended_frozen_c[of t csg] by (simp add: cinv_ends_ok)
  qed
  show ?thesis
    using gem cod claude_run_facts[of msgs ending k] by blast
qed

text \<open>
  Claim C1 at two gemini runs that are not aborted and consumed to the end. The
  process prints an \<open>error\<close> line, then a \<open>result\<close> line, and exits with 0: the consumer
  receives \<open>error\<close> and then \<open>done\<close>, an event after the terminal one. The process
  prints one \<open>message\<close> line and exits with 0: the consumer receives the message and
  the iteration completes with no terminal event at all.
\<close>

theorem C1_gemini_terminal_events_not_enforced:
  \<open>(let s = grun sample_parse
              [Line ''{"type":"error","message":"tool failed"}'', Line ''{"type":"result"}'',
               Exit (Some 0), Pull, Pull, Pull]
              (projr (runStreamedInternal ''hello'' plainRun (freshThread noOpts)))
    in gen s = Ended Completed \<and> map etype (yielded s) = [T_error, T_done]
       \<and> \<not> one_terminal_outcome (yielded s) Completed)
   \<and> (let s = grun sample_parse
              [Line ''{"type":"message","content":"hi"}'', Exit (Some 0), Pull, Pull]
              (projr (runStreamedInternal ''hello'' plainRun (freshThread noOpts)))
    in gen s = Ended Completed \<and> map etype (yielded s) = [T_message]
       \<and> \<not> one_terminal_outcome (yielded s) Completed)\<close>
  by code_simp


subsection \<open>Where a \<open>cancelled\<close> event comes from\<close>

text \<open>
  Gemini: a \<open>cancelled\<close> event is yielded only in a run whose token is aborted, so a
  crash or a failing exit of a run that is not aborted never yields one; and when the
  process exit is handled in a run that is aborted and not yet finished, \<open>cancelled\<close>,
  the \<open>interrupted\<close> error and the end mark are what is pushed. Codex: a \<open>cancelled\<close>
  event is yielded exactly when the \<open>catch\<close> block was entered with an abort-shaped
  error (named \<open>AbortError\<close> or with code \<open>interrupted\<close>).
\<close>

lemma cancelled_event_origin:
  "(runStreamedInternal prompt ro w = Inr ini \<and> s = grun parse sigs ini \<longrightarrow>
      (has_type T_cancelled (yielded s) \<longrightarrow> aborted (activeOf s))
      \<and> (\<not> finished s \<and> aborted (activeOf s) \<and> running (child (activeOf s)) \<and> exitListener s \<longrightarrow>
           trace (gstep parse (Exit code) s) = trace s @ cancelledPair (activeOf s)))
   \<and> (runStreamedInternal_c cro v = Inr c \<and> t = crun csigs c \<longrightarrow>
        has_type T_cancelled (cyielded t) = abort_caught t)"
proof -
  have gem: "(has_type T_cancelled (yielded s) \<longrightarrow> aborted (activeOf s))
      \<and> (\<not> finished s \<and> aborted (activeOf s) \<and> running (child (activeOf s)) \<and> exitListener s \<longrightarrow>
           trace (gstep parse (Exit code) s) = trace s @ cancelledPair (activeOf s))"
    if a: "runStreamedInternal prompt ro w = Inr ini \<and> s = grun parse sigs ini"
  proof -
    have g0: "ginv ini" using a by (auto intro: ginv_initial)
    have g: "ginv s" using a g0 by (auto intro: ginv_grun)
    have "cancel_inv ini" using a by (auto intro: cancel_initial)
    then have ci: "cancel_inv s" using a g0 by (auto intro: cancel_grun)
    show ?thesis
      using yielded_cancelled_aborted[OF ci] exit_aborted_step[OF g, of parse code] by blast
  qed
  have cod: "has_type T_cancelled (cyielded t) = abort_caught t"
    if a: "runStreamedInternal_c cro v = Inr c \<and> t = crun csigs c"
  proof -
    have "cinv t" using a by (auto intro: cinv_crun cinv_initial)
    then show ?thesis by (rule cinv_cancelled)
  qed
  show ?thesis
    using gem cod by blast
qed

text \<open>
  Claim C3 at a gemini run that is interrupted and whose child then emits its \<open>error\<close>
  event: after the interrupt the token is aborted and the run is not finished; the
  child's error then makes the iteration throw, and no \<open>cancelled\<close> event was pushed
  or yielded.
\<close>

theorem C3_aborted_gemini_run_without_cancelled:
  \<open>(let s1 = grun sample_parse [Pull, Interrupt (Some ''stop'')]
                (projr (runStreamedInternal ''hello'' plainRun (freshThread noOpts)));
        s = gstep sample_parse (ChildError (new_Error ''spawn gemini ENOENT'')) s1
    in aborted (activeOf s1) \<and> \<not> finished s1 \<and> yielded s1 = []
       \<and> gen s = Ended (Threw (new_Error ''spawn gemini ENOENT''))
       \<and> yielded s = []
       \<and> \<not> has_type T_cancelled (events_of (trace s)))\<close>
  by code_simp

subsection \<open>What a run that fails on exit has delivered\<close>

lemma trace_gstep_pull:
  assumes g: "ginv s"
  shows "trace (gstep parse Pull s) = trace s"
proof -
  have i: "inbox s = []" using g by (rule ginv_parts)
  show ?thesis
  proof (cases "gen s = SuspendedStart \<or> gen s = SuspendedYield")
    case False
    with i show ?thesis by (simp add: gstep_def pull_def)
  next
    case sus: True
    show ?thesis
    proof (cases "queue s")
      case Nil
      have ev: "list_all is_Ev (delivered s)"
        using ginv_parts(4)[OF g] sus by auto
      have "\<not> finished s"
      proof
        assume f: "finished s"
        have "shape True (delivered s)"
          using ginv_parts(2)[OF g] f i Nil by (simp add: trace_def)
        with ev show False by (simp add: shape_True_not_all_Ev)
      qed
      then have "pull s = s\<lparr>waiters := waiters s + 1, gen := Awaiting\<rparr>"
        using sus Nil by (auto simp: pull_def)
      then show ?thesis using i by (simp add: gstep_def)
    next
      case (Cons e q)
      have p: "pull s = receive e (s\<lparr>queue := q\<rparr>)"
        using sus Cons by (auto simp: pull_def)
      have "inbox (pull s) = []" unfolding p using i by simp
      then show ?thesis
        using p trace_receive_queue[OF i Cons] by (simp add: gstep_def)
    qed
  qed
qed

lemma lineListener_receive_Ev [simp]: "lineListener (receive (Ev e) s) = lineListener s"
  by (simp add: receive_Ev)

lemma lineListener_emit [simp]: "lineListener (emit es s) = lineListener s"
  unfolding emit_def by (induction es arbitrary: s) (simp_all add: push_def)

lemma lineListener_settle_emit:
  assumes i: "inbox s = []"
    and w: "if gen s = Awaiting then waiters s = 1 \<and> queue s = [] else waiters s = 0"
    and e: "list_all is_Ev es"
  shows "lineListener (settle (emit es s)) = lineListener s"
proof (cases "gen s = Awaiting")
  case True
  show ?thesis
  proof (cases es)
    case Nil
    with i show ?thesis by simp
  next
    case (Cons x xs)
    then obtain ev where x: "x = Ev ev" using e by (cases x) simp_all
    have em: "emit (x # xs) s = s\<lparr>waiters := 0, inbox := [x], queue := xs\<rparr>"
      using True w i by (simp add: emit_one_waiter)
    show ?thesis
      unfolding Cons em using True x by (simp add: settle_def receive_Ev)
  qed
next
  case False
  have em: "emit es s = s\<lparr>queue := queue s @ es\<rparr>"
    using False w by (simp add: emit_no_waiters)
  show ?thesis using i by (simp add: em)
qed

lemma lineListener_pull:
  assumes l: "live s"
  shows "lineListener (gstep parse Pull s) = lineListener s"
proof -
  have g: "ginv s" using l by (rule live_parts)
  have i: "inbox s = []" using g by (rule ginv_parts)
  show ?thesis
  proof (cases "gen s = SuspendedStart \<or> gen s = SuspendedYield")
    case False
    with i show ?thesis by (simp add: gstep_def pull_def)
  next
    case sus: True
    show ?thesis
    proof (cases "queue s")
      case Nil
      have "pull s = s\<lparr>waiters := waiters s + 1, gen := Awaiting\<rparr>"
        using sus Nil live_parts(2)[OF l] by (auto simp: pull_def)
      then show ?thesis using i by (simp add: gstep_def)
    next
      case (Cons x q)
      have "list_all line_entry (trace s)"
        using ginv_parts(2)[OF g] live_parts(2)[OF l] by (simp add: shape_False_iff)
      then have "list_all is_Ev (trace s)" by (rule all_Ev_line)
      then have "is_Ev x" using Cons by (simp add: trace_def)
      then obtain e where x: "x = Ev e" by (cases x) simp_all
      have "pull s = s\<lparr>queue := q, delivered := delivered s @ [Ev e], gen := SuspendedYield\<rparr>"
        using sus Cons x by (auto simp: pull_def receive_Ev)
      then show ?thesis using i by (simp add: gstep_def)
    qed
  qed
qed

lemma line_events_step:
  assumes l: "live s" and ll: "lineListener s" and b: "benign sg"
  shows "lineListener (gstep parse sg s)
         \<and> events_of (trace (gstep parse sg s)) = events_of (trace s) @ line_events parse [sg]"
proof (cases sg)
  case (Line ln)
  have g: "ginv s" using l by (rule live_parts)
  have i: "inbox s = []" using g by (rule ginv_parts)
  show ?thesis
  proof (cases "parse ln")
    case None
    with Line ll i live_parts(2)[OF l] show ?thesis
      by (simp add: gstep_def handleLine_def)
  next
    case (Some ev)
    let ?s = "s\<lparr>world := captureGeminiSessionMetadata (Some ev) (world s)\<rparr>"
    let ?es = "map Ev (normalizeGeminiEvent (Some ev))"
    have hl: "handleLine parse ln s = emit ?es ?s"
      using Some live_parts(2)[OF l] by (simp add: handleLine_def)
    have i': "inbox ?s = []" using i by simp
    have w': "if gen ?s = Awaiting then waiters ?s = 1 \<and> queue ?s = [] else waiters ?s = 0"
      using ginv_w[OF g] by simp
    have t: "trace (settle (emit ?es ?s)) = trace ?s @ ?es"
      using i' w' by (rule trace_settle_emit)
    have ls: "lineListener (settle (emit ?es ?s)) = lineListener ?s"
      using i' w' by (rule lineListener_settle_emit) (simp add: list_all_iff)
    show ?thesis
      using Line ll Some t ls by (simp add: gstep_def hl)
  qed
next
  case Close
  have g: "ginv s" using l by (rule live_parts)
  have "handleClose (s\<lparr>closeListener := False\<rparr>) = s\<lparr>closeListener := False\<rparr>"
    using live_parts(3)[OF l] by (simp add: handleClose_def activeOf_def)
  then show ?thesis
    using Close ll ginv_parts(1)[OF g] by (simp add: gstep_def)
next
  case (Elapse d)
  have g: "ginv s" using l by (rule live_parts)
  show ?thesis
    using Elapse ll ginv_parts(1)[OF g] by (simp add: gstep_def)
next
  case Pull
  have g: "ginv s" using l by (rule live_parts)
  show ?thesis
    using Pull ll lineListener_pull[OF l, of parse] trace_gstep_pull[OF g, of parse] by simp
qed (use b in simp_all)

lemma line_events_Cons: "line_events parse (sg # sigs) = line_events parse [sg] @ line_events parse sigs"
  by (cases sg) simp_all

lemma line_events_grun:
  "live s \<Longrightarrow> lineListener s \<Longrightarrow> list_all benign sigs \<Longrightarrow>
   events_of (trace (grun parse sigs s)) = events_of (trace s) @ line_events parse sigs"
proof (induction sigs arbitrary: s)
  case Nil
  then show ?case by simp
next
  case (Cons sg sigs)
  have b: "benign sg" and bs: "list_all benign sigs" using Cons.prems by simp_all
  note st = line_events_step[OF Cons.prems(1,2) b, of parse]
  have "events_of (trace (grun parse sigs (gstep parse sg s)))
        = events_of (trace (gstep parse sg s)) @ line_events parse sigs"
    using live_gstep[OF Cons.prems(1) b] st bs by (intro Cons.IH) simp_all
  then show ?case
    using st by (simp add: line_events_Cons[of parse sg sigs])
qed

lemma first_Failure:
  "list_all is_Ev b \<Longrightarrow> list_all is_Ev t \<Longrightarrow> b @ Failure x # r = t @ Failure y # r' \<Longrightarrow> b = t"
proof (induction b arbitrary: t)
  case Nil
  then show ?case by (cases t) auto
next
  case (Cons a b)
  then show ?case by (cases t) auto
qed

lemma trace_pulls: "ginv s \<Longrightarrow> trace (grun parse (replicate n Pull) s) = trace s"
proof (induction n arbitrary: s)
  case 0
  then show ?case by simp
next
  case (Suc n)
  have "trace (grun parse (replicate n Pull) (gstep parse Pull s)) = trace (gstep parse Pull s)"
    using Suc.prems by (intro Suc.IH) (rule ginv_gstep)
  then show ?case using Suc.prems by (simp add: trace_gstep_pull)
qed

lemma exit_failure_trace:
  assumes l: "live s" and c: "code \<noteq> Some 0"
  shows "trace (gstep parse (Exit code) s)
         = trace s @ [Failure (new_Error (''gemini exited with code '' @ code_str code)), DONE]"
proof -
  let ?err = "new_Error (''gemini exited with code '' @ code_str code)"
  let ?s1 = "s\<lparr>world := processExits (rid s) code (world s), exitListener := False, finished := True\<rparr>"
  have g: "ginv s" using l by (rule live_parts)
  have na: "\<not> aborted (heap (processExits (rid s) code (world s)) (rid s))"
    using live_parts(3)[OF l] by (simp add: processExits_def activeOf_def)
  have ex: "onExit code (s\<lparr>world := processExits (rid s) code (world s), exitListener := False\<rparr>)
            = emit [Failure ?err, DONE] ?s1"
    using live_parts(2)[OF l] na c by (simp add: onExit_def Let_def activeOf_def)
  have st: "gstep parse (Exit code) s = settle (emit [Failure ?err, DONE] ?s1)"
    using live_parts(4,5)[OF l] ex by (simp add: gstep_def Let_def)
  have "trace (settle (emit [Failure ?err, DONE] ?s1)) = trace ?s1 @ [Failure ?err, DONE]"
    using ginv_parts(1)[OF g] ginv_w[OF g] by (intro trace_settle_emit) simp_all
  then show ?thesis unfolding st by simp
qed

lemma exit_failure_yielded:
  assumes l: "live s" and d: "delivered_ok (gen s) (delivered s)" and c: "code \<noteq> Some 0"
    and f: "fin = grun parse (replicate (length (queue (gstep parse (Exit code) s))) Pull)
                    (gstep parse (Exit code) s)"
  shows "yielded fin = events_of (trace s)"
proof -
  let ?err = "new_Error (''gemini exited with code '' @ code_str code)"
  let ?e = "gstep parse (Exit code) s"
  let ?n = "length (queue ?e)"
  let ?f = "grun parse (replicate ?n Pull) ?e"
  have g: "ginv s" using l by (rule live_parts)
  have ge: "ginv ?e" using g by (rule ginv_gstep)
  have th: "gen ?f = Ended (Threw ?err)"
    using l c by (rule exit_failure_step)
  have "delivered_ok (gen ?e) (delivered ?e)" using d by (rule delivered_ok_gstep)
  then have "delivered_ok (gen ?f) (delivered ?f)"
    by (rule delivered_ok_grun)
  then have dk: "delivered_ok (Ended (Threw ?err)) (delivered ?f)"
    unfolding th .
  obtain b where dl: "delivered ?f = b @ [Failure ?err]" and ev: "list_all is_Ev b"
  proof
    show "delivered ?f = butlast (delivered ?f) @ [Failure ?err]"
      using dk append_butlast_last_id[of "delivered ?f"] by auto
    show "list_all is_Ev (butlast (delivered ?f))"
      using dk by simp
  qed
  have "trace ?f = trace ?e"
    using ge by (rule trace_pulls)
  also have "\<dots> = trace s @ [Failure ?err, DONE]"
    using l c by (rule exit_failure_trace)
  finally have tr: "delivered ?f @ inbox ?f @ queue ?f = trace s @ [Failure ?err, DONE]"
    unfolding trace_def .
  have "list_all line_entry (trace s)"
    using ginv_parts(2)[OF g] live_parts(2)[OF l] by (simp add: shape_False_iff)
  then have ts: "list_all is_Ev (trace s)" by (rule all_Ev_line)
  have "b @ Failure ?err # (inbox ?f @ queue ?f) = trace s @ Failure ?err # [DONE]"
    using tr unfolding dl by simp
  with ev ts have "b = trace s"
    by (rule first_Failure)
  then have "events_of (delivered ?f) = events_of (trace s)"
    unfolding dl by simp
  then show ?thesis
    unfolding f yielded_def .
qed

lemma initial_listening:
  "runStreamedInternal prompt ro w = Inr s0 \<Longrightarrow> lineListener s0 \<and> trace s0 = []"
  by (auto simp: runStreamedInternal_def trace_def split: option.splits prod.splits)

text \<open>
  Claim C2, amended. In a streamed gemini run that is not aborted, after any output
  lines, closings of the output stream, pulls and passing time, a process exit with a
  non-zero or signalled status makes the iteration end by throwing the exit error once
  the consumer has taken what was queued: it does not complete, and neither the
  closing nor the exit adds an event. The events delivered are exactly those of the
  lines printed before the exit, so a \<open>done\<close> event is among them only if the process
  printed a \<open>result\<close> line before it failed. Closing the output stream of a run that is
  not aborted pushes nothing and does not finish the run. A non-streamed run on an
  idle thread that is not aborted and whose process exits with such a status rejects
  with the exit error.
\<close>

theorem C2_failing_exit_after_close_throws:
  "(runStreamedInternal prompt ro w = Inr ini \<and> list_all benign pre \<and> code \<noteq> Some 0
      \<and> fin = grun parse (replicate (length (queue (grun parse (pre @ [Exit code]) ini))) Pull)
                 (grun parse (pre @ [Exit code]) ini) \<longrightarrow>
      gen fin = Ended (Threw (new_Error (''gemini exited with code '' @ code_str code)))
      \<and> yielded fin = line_events parse pre
      \<and> (\<not> has_type T_done (line_events parse pre) \<longrightarrow> \<not> has_type T_done (yielded fin)))
   \<and> (runStreamedInternal prompt ro w = Inr ini \<and> \<not> aborted (activeOf (grun parse sigs ini)) \<longrightarrow>
        trace (gstep parse Close (grun parse sigs ini)) = trace (grun parse sigs ini)
        \<and> finished (gstep parse Close (grun parse sigs ini)) = finished (grun parse sigs ini))
   \<and> (currentRun (state w) = None \<and> \<not> list_ex is_abort wsigs \<and> code \<noteq> Some 0 \<longrightarrow>
        fst (runInternal parse prompt ro wsigs (Exited out err code) w)
          = Inl (new_Error (''gemini exited with code '' @ code_str code @ '': '' @ err)))"
proof -
  have one: "runStreamedInternal prompt ro w = Inr ini \<and> list_all benign pre \<and> code \<noteq> Some 0
      \<and> fin = grun parse (replicate (length (queue (grun parse (pre @ [Exit code]) ini))) Pull)
                 (grun parse (pre @ [Exit code]) ini) \<longrightarrow>
      gen fin = Ended (Threw (new_Error (''gemini exited with code '' @ code_str code)))
      \<and> yielded fin = line_events parse pre
      \<and> (\<not> has_type T_done (line_events parse pre) \<longrightarrow> \<not> has_type T_done (yielded fin))"
  proof (rule impI)
    assume a: "runStreamedInternal prompt ro w = Inr ini \<and> list_all benign pre \<and> code \<noteq> Some 0
      \<and> fin = grun parse (replicate (length (queue (grun parse (pre @ [Exit code]) ini))) Pull)
                 (grun parse (pre @ [Exit code]) ini)"
    let ?s = "grun parse pre ini"
    have i0: "runStreamedInternal prompt ro w = Inr ini" using a by (rule conjunct1)
    have bp: "list_all benign pre" using a by simp
    have li: "live ini" using i0 by (rule live_initial)
    have l: "live ?s" using li bp by (rule live_grun)
    have "delivered_ok (gen ini) (delivered ini)" using i0 by (rule delivered_ok_initial)
    then have d: "delivered_ok (gen ?s) (delivered ?s)" by (rule delivered_ok_grun)
    have il: "lineListener ini \<and> trace ini = []"
      using i0 by (rule initial_listening)
    have ev: "events_of (trace ?s) = line_events parse pre"
      using line_events_grun[OF li il[THEN conjunct1] bp, of parse] il by simp
    have f0: "fin = grun parse (replicate (length (queue (grun parse (pre @ [Exit code]) ini))) Pull)
                 (grun parse (pre @ [Exit code]) ini)"
      using a by (simp only:)
    have ap: "grun parse (pre @ [Exit code]) ini = gstep parse (Exit code) ?s"
      by (simp add: grun_append)
    have f: "fin = grun parse (replicate (length (queue (gstep parse (Exit code) ?s))) Pull)
                    (gstep parse (Exit code) ?s)"
      using f0 unfolding ap .
    have c: "code \<noteq> Some 0" using a by simp
    have "gen fin = Ended (Threw (new_Error (''gemini exited with code '' @ code_str code)))"
      unfolding f using l c by (rule exit_failure_step)
    moreover have "yielded fin = line_events parse pre"
      using exit_failure_yielded[OF l d c f] ev by simp
    ultimately show "gen fin = Ended (Threw (new_Error (''gemini exited with code '' @ code_str code)))
      \<and> yielded fin = line_events parse pre
      \<and> (\<not> has_type T_done (line_events parse pre) \<longrightarrow> \<not> has_type T_done (yielded fin))"
      by (simp only: simp_thms)
  qed
  have two: "runStreamedInternal prompt ro w = Inr ini \<and> \<not> aborted (activeOf (grun parse sigs ini)) \<longrightarrow>
        trace (gstep parse Close (grun parse sigs ini)) = trace (grun parse sigs ini)
        \<and> finished (gstep parse Close (grun parse sigs ini)) = finished (grun parse sigs ini)"
  proof (rule impI)
    assume a: "runStreamedInternal prompt ro w = Inr ini \<and> \<not> aborted (activeOf (grun parse sigs ini))"
    have i: "runStreamedInternal prompt ro w = Inr ini" using a by (rule conjunct1)
    have "ginv ini" using i by (rule ginv_initial)
    then have "ginv (grun parse sigs ini)" by (rule ginv_grun)
    then show "trace (gstep parse Close (grun parse sigs ini)) = trace (grun parse sigs ini)
        \<and> finished (gstep parse Close (grun parse sigs ini)) = finished (grun parse sigs ini)"
      using a[THEN conjunct2] by (rule close_alone)
  qed
  have three: "currentRun (state w) = None \<and> \<not> list_ex is_abort wsigs \<and> code \<noteq> Some 0 \<longrightarrow>
        fst (runInternal parse prompt ro wsigs (Exited out err code) w)
          = Inl (new_Error (''gemini exited with code '' @ code_str code @ '': '' @ err))"
  proof (rule impI)
    assume a: "currentRun (state w) = None \<and> \<not> list_ex is_abort wsigs \<and> code \<noteq> Some 0"
    show "fst (runInternal parse prompt ro wsigs (Exited out err code) w)
          = Inl (new_Error (''gemini exited with code '' @ code_str code @ '': '' @ err))"
      using a[THEN conjunct1] a[THEN conjunct2, THEN conjunct1] a[THEN conjunct2, THEN conjunct2]
      by (rule runInternal_exit_failure)
  qed
  show ?thesis
    by (rule conjI[OF one conjI[OF two three]])
qed

theorem C2_failing_exit_after_close_throws_witness:
  \<open>gen (grun sample_parse
          (replicate
             (length (queue (grun sample_parse
                ([Line ''{"type":"message","content":"hi"}'', Pull, Close] @ [Exit (Some 1)])
                (projr (runStreamedInternal ''hello'' plainRun (freshThread noOpts))))))
             Pull)
          (grun sample_parse
             ([Line ''{"type":"message","content":"hi"}'', Pull, Close] @ [Exit (Some 1)])
             (projr (runStreamedInternal ''hello'' plainRun (freshThread noOpts)))))
     = Ended (Threw (new_Error (''gemini exited with code '' @ code_str (Some 1))))
   \<and> map etype (yielded (grun sample_parse
          (replicate
             (length (queue (grun sample_parse
                ([Line ''{"type":"message","content":"hi"}'', Pull, Close] @ [Exit (Some 1)])
                (projr (runStreamedInternal ''hello'' plainRun (freshThread noOpts))))))
             Pull)
          (grun sample_parse
             ([Line ''{"type":"message","content":"hi"}'', Pull, Close] @ [Exit (Some 1)])
             (projr (runStreamedInternal ''hello'' plainRun (freshThread noOpts))))))
     = [T_message]
   \<and> fst (runInternal sample_parse ''hello'' plainRun [Elapse 5]
            (Exited ''{"x":1}'' ''boom'' (Some 1)) (freshThread noOpts))
     = Inl (new_Error (''gemini exited with code '' @ code_str (Some 1) @ '': '' @ ''boom''))\<close>
  (is "gen ?fin = ?thrown \<and> map etype (yielded ?fin) = [T_message] \<and> ?rejected")
proof -
  let ?ini = "projr (runStreamedInternal ''hello'' plainRun (freshThread noOpts))"
  let ?pre = \<open>[Line ''{"type":"message","content":"hi"}'', Pull, Close]\<close>
  have g: "runStreamedInternal ''hello'' plainRun (freshThread noOpts) = Inr ?ini"
    by (simp add: runStreamedInternal_def assertIdle_def split: prod.splits)
  have b: "list_all benign ?pre"
    by simp
  have c: "Some (1::int) \<noteq> Some 0" by simp
  have n: "\<not> list_ex is_abort [Elapse 5]" by simp
  have i: "currentRun (state (freshThread noOpts)) = None"
    by (simp add: freshThread_def createThreadHandle_def startThread_def Let_def)
  have le: "map etype (line_events sample_parse ?pre) = [T_message]"
    by code_simp
  note t = C2_failing_exit_after_close_throws[where prompt = "''hello''" and ro = plainRun
      and w = "freshThread noOpts" and parse = sample_parse and code = "Some 1"
      and ini = ?ini and pre = ?pre and fin = ?fin
      and wsigs = "[Elapse 5]" and out = \<open>''{"x":1}''\<close> and err = "''boom''"]
  have r: "gen ?fin = ?thrown \<and> yielded ?fin = line_events sample_parse ?pre
           \<and> (\<not> has_type T_done (line_events sample_parse ?pre) \<longrightarrow> \<not> has_type T_done (yielded ?fin))"
    by (rule t[THEN conjunct1, rule_format]) (intro conjI g b c refl)
  have y: "map etype (yielded ?fin) = [T_message]"
    using r le by (simp only:)
  have q: "?rejected"
    by (rule t[THEN conjunct2, THEN conjunct2, rule_format]) (intro conjI i n c)
  show ?thesis
    using r y q by (intro conjI) (simp_all only:)
qed

theorem C2_done_then_failing_exit_counterexample:
  \<open>(let s = grun sample_parse
               [Pull, Line ''{"type":"result"}'', Pull, Close, Exit (Some 1)]
               (projr (runStreamedInternal ''hello'' plainRun (freshThread noOpts)))
    in gen s = Ended (Threw (new_Error (''gemini exited with code '' @ code_str (Some 1))))
       \<and> map etype (yielded s) = [T_done]
       \<and> \<not> has_type T_error (yielded s))\<close>
  by code_simp

end
